theory Spec2Isabelle
  imports Main "HOL-Library.Multiset" "HOL-Library.Word"
begin

section \<open>Data model\<close>

text \<open>
  The client side of the RPC pattern of \<open>src/communication/RpcClient.cpp\<close>. The message
  model and the transport are collaborators whose declarations live in headers outside the
  file; they are modelled here only as far as \<open>RpcClient.cpp\<close> reads them.
\<close>

text \<open>Modelled from the spec: the status codes of \<open>v1::UCode\<close>, whose declaration is in
  the generated protocol headers. \<open>RpcClient.cpp\<close> itself names \<open>OK\<close>, \<open>CANCELLED\<close> and
  \<open>DEADLINE_EXCEEDED\<close>; the other codes stand for whatever else a transport or a remote
  peer may report.\<close>

datatype UCode =
    OK | CANCELLED | UNKNOWN | INVALID_ARGUMENT | DEADLINE_EXCEEDED | NOT_FOUND
  | ALREADY_EXISTS | PERMISSION_DENIED | UNAUTHENTICATED | RESOURCE_EXHAUSTED
  | FAILED_PRECONDITION | ABORTED | OUT_OF_RANGE | UNIMPLEMENTED | INTERNAL
  | UNAVAILABLE | DATA_LOSS

text \<open>Modelled from the spec: \<open>v1::UStatus\<close>, a code and a human-readable message.\<close>

record UStatus =
  code :: UCode
  message :: string

text \<open>Modelled from the spec: the correlation identifier \<open>v1::UUID\<close> (two 64-bit halves,
  compared field by field by \<open>MessageDifferencer::Equals\<close>), and the parts of a message
  that \<open>invokeMethod\<close> reads.\<close>

record UUID =
  msb :: "64 word"
  lsb :: "64 word"

type_synonym UUri = string

record UAttributes =
  attr_id :: UUID
  reqid :: UUID
  commstatus :: UCode
  source :: UUri
  sink :: UUri

record UMessage =
  attributes :: UAttributes
  payload :: string

text \<open>\<open>RpcClient::Status\<close> is \<open>std::variant<v1::UStatus, Commstatus>\<close>; \<open>MessageOrStatus\<close> is
  the expected-or-unexpected value handed to the caller: \<open>Inl\<close> the unexpected status,
  \<open>Inr\<close> the response message.\<close>

datatype Status = StatusOf UStatus | CommstatusOf UCode

type_synonym MessageOrStatus = "Status + UMessage"

text \<open>
  Closures. Every call of \<open>invokeMethod\<close> receives its own continuation object and allocates
  its own \<open>std::once_flag\<close>; both are captured by the \<open>wrapper\<close> and the \<open>expire\<close> lambdas.
  The address of the once-flag (an index into the store \<open>once_flags\<close>) therefore names the
  invocation, its continuation and its \<open>expire\<close> closure. Listener handles are tokens
  handed out by the transport, numbered in the order of registration. Time points of the
  steady clock are integers (ticks).
\<close>

type_synonym ListenHandle = nat

record PendingRequest =
  when_expire :: int
  response_listener :: ListenHandle
  expire :: nat
  instance_id :: "64 word"

record RpcClient =
  ttl :: int
  service_instance_id :: "64 word"

text \<open>
  The state of the process as far as the file touches it:
  \<^item> \<open>once_flags\<close>: the once-flags allocated so far (\<open>True\<close>: already passed);
  \<^item> \<open>calls\<close>: every invocation of a caller's continuation, in order, with its argument;
  \<^item> \<open>listeners\<close>: the transport's registrations, handle with the captured
    request id and invocation of the \<open>wrapper\<close> closure;
  \<^item> \<open>next_handle\<close>: the next handle the transport hands out;
  \<^item> \<open>send_calls\<close>: the requests passed to the transport's \<open>send\<close>;
  \<^item> \<open>released\<close>: the handles released (listeners unregistered), in order;
  \<^item> \<open>pending\<close>: the container \<open>c\<close> of \<open>ExpireWorker::pending_\<close>;
  \<^item> \<open>stop\<close>: \<open>ExpireWorker::stop_\<close>;
  \<^item> \<open>notified\<close>: every call of a queued waiter's \<open>expire\<close> made by the worker, by
    \<open>scrub\<close> or by the queue's destructor: the closure, the reason, and whether a waiter
    with that closure was in the container at the moment of the call;
  \<^item> \<open>early_expire\<close>: every call that \<open>invokeMethod\<close> itself makes of an \<open>expire\<close>
    closure which it then hands to the expiration service as a waiter's \<open>expire\<close> (the
    call after a failed \<open>send\<close>): the closure and the send status. The call after a
    failed registration is not of this kind: that closure never becomes a waiter's.
\<close>

record state =
  once_flags :: "bool list"
  calls :: "(nat \<times> MessageOrStatus) list"
  listeners :: "(ListenHandle \<times> UUID \<times> nat) list"
  next_handle :: nat
  send_calls :: "UMessage list"
  released :: "ListenHandle list"
  pending :: "PendingRequest list"
  stop :: bool
  notified :: "(nat \<times> UStatus \<times> bool) list"
  early_expire :: "(nat \<times> UStatus) list"

definition init :: state where
  "init = \<lparr>once_flags = [], calls = [], listeners = [], next_handle = 0, send_calls = [],
            released = [], pending = [], stop = False, notified = [],
            early_expire = []\<rparr>"

section \<open>The deadline queue\<close>

text \<open>\<open>PendingRequest::operator>\<close> compares the deadlines only.\<close>

definition gt :: "PendingRequest \<Rightarrow> PendingRequest \<Rightarrow> bool" where
  "gt a b = (when_expire a > when_expire b)"

text \<open>
  \<open>ScrubablePendingQueue\<close> is a \<open>std::priority_queue\<close> over a vector \<open>c\<close> with
  \<open>std::greater\<close>. Its \<open>emplace\<close> is \<open>push_back\<close> followed by \<open>std::push_heap\<close>, its
  \<open>pop\<close> is \<open>std::pop_heap\<close> followed by \<open>pop_back\<close>. The two heap functions belong to
  the C++ standard library, not to the repository; they are written here as the GNU
  implementation has them, on the binary heap laid out in the vector (the children of
  index \<open>i\<close> are \<open>2i+1\<close> and \<open>2i+2\<close>). In \<open>__push_heap\<close> a hole moves up while the
  parent compares greater than the value (\<open>push_heap_loop\<close>). In \<open>__adjust_heap\<close> the hole
  moves from the root down to a leaf, each time to the child that does not compare greater
  than its sibling, and the value is then pushed up from there (\<open>adjust_heap\<close>);
  \<open>__pop_heap\<close> first stores the root in the last position and takes the old last element
  as that value.
\<close>

function push_heap_loop ::
  "PendingRequest list \<Rightarrow> nat \<Rightarrow> nat \<Rightarrow> PendingRequest \<Rightarrow> PendingRequest list" where
  "push_heap_loop c holeIndex topIndex v =
     (let parent = (holeIndex - 1) div 2
      in if holeIndex > topIndex \<and> gt (c ! parent) v
         then push_heap_loop (c[holeIndex := c ! parent]) parent topIndex v
         else c[holeIndex := v])"
  by pat_completeness auto
termination
  by (relation "measure (\<lambda>(c, holeIndex, topIndex, v). holeIndex)") auto

declare push_heap_loop.simps [simp del]

definition push_heap :: "PendingRequest list \<Rightarrow> PendingRequest list" where
  "push_heap c = (if c = [] then c else push_heap_loop c (length c - 1) 0 (last c))"

function adjust_heap_loop ::
  "PendingRequest list \<Rightarrow> nat \<Rightarrow> nat \<Rightarrow> PendingRequest list \<times> nat" where
  "adjust_heap_loop c secondChild len =
     (if secondChild < (len - 1) div 2
      then (let sc = 2 * (secondChild + 1);
                sc' = (if gt (c ! sc) (c ! (sc - 1)) then sc - 1 else sc)
            in adjust_heap_loop (c[secondChild := c ! sc']) sc' len)
      else (c, secondChild))"
  by pat_completeness auto
termination
  by (relation "measure (\<lambda>(c, secondChild, len). len - secondChild)") auto

declare adjust_heap_loop.simps [simp del]

definition adjust_heap ::
  "PendingRequest list \<Rightarrow> nat \<Rightarrow> nat \<Rightarrow> PendingRequest \<Rightarrow> PendingRequest list" where
  "adjust_heap c holeIndex len v =
     (let (c1, secondChild) = adjust_heap_loop c holeIndex len;
          (c2, hole2) =
            (if len mod 2 = 0 \<and> secondChild = (len - 2) div 2
             then (c1[secondChild := c1 ! (2 * (secondChild + 1) - 1)],
                   2 * (secondChild + 1) - 1)
             else (c1, secondChild))
      in push_heap_loop c2 hole2 holeIndex v)"

definition pop_heap :: "PendingRequest list \<Rightarrow> PendingRequest list" where
  "pop_heap c =
     (if length c > 1
      then (let l = length c - 1; v = c ! l
            in adjust_heap (c[l := c ! 0]) 0 l v)
      else c)"

definition pq_emplace :: "PendingRequest \<Rightarrow> PendingRequest list \<Rightarrow> PendingRequest list" where
  "pq_emplace p c = push_heap (c @ [p])"

definition pq_pop :: "PendingRequest list \<Rightarrow> PendingRequest list" where
  "pq_pop c = butlast (pop_heap c)"

text \<open>\<open>ScrubablePendingQueue::top\<close> is \<open>c.front()\<close>; the worker calls it on a non-empty
  queue only, and the model keeps that guard at the call.\<close>

definition top :: "PendingRequest list \<Rightarrow> PendingRequest" where
  "top c = hd c"

section \<open>The one-shot guard and the two closures\<close>

text \<open>
  \<open>std::call_once\<close> on the once-flag at address \<open>i\<close>, with a callable that invokes the
  invocation's continuation on \<open>r\<close>: the first call passes the flag and runs the
  callable, every later call returns without running it. The check and the set are one
  atomic step. (Continuations are assumed to return normally; an address that was never
  allocated is not held by any closure.)
\<close>

definition call_once :: "nat \<Rightarrow> MessageOrStatus \<Rightarrow> state \<Rightarrow> state" where
  "call_once i r st =
     (if i < length (once_flags st) \<and> \<not> once_flags st ! i
      then st\<lparr>once_flags := (once_flags st)[i := True], calls := calls st @ [(i, r)]\<rparr>
      else st)"

text \<open>The \<open>wrapper\<close> lambda of \<open>invokeMethod\<close>, with its captures (\<open>reqid\<close> and the
  invocation) as the first two arguments.\<close>

definition wrapper :: "UUID \<Rightarrow> nat \<Rightarrow> UMessage \<Rightarrow> state \<Rightarrow> state" where
  "wrapper rid i m st =
     (if reqid (attributes m) = rid
      then (if commstatus (attributes m) = OK
            then call_once i (Inr m) st
            else call_once i (Inl (CommstatusOf (commstatus (attributes m)))) st)
      else st)"

text \<open>The \<open>expire\<close> lambda of \<open>invokeMethod\<close>, with its capture as the first argument.\<close>

definition expire_lambda :: "nat \<Rightarrow> Status \<Rightarrow> state \<Rightarrow> state" where
  "expire_lambda i reason st = call_once i (Inl reason) st"

section \<open>The transport\<close>

text \<open>Modelled from the spec: the transport collaborator. \<open>registerListener\<close> either
  fails with a status or stores the handler and returns a fresh handle; \<open>send\<close> returns a
  status; releasing a handle unregisters the listener; a delivered message is passed to the
  handler of a registered listener. Whether registration and sending succeed is the
  transport's decision and is an argument here; so is which messages it passes to which
  listener (its filter on source and sink addresses is its own business).\<close>

definition registerListener ::
  "UStatus option \<Rightarrow> UUID \<times> nat \<Rightarrow> state \<Rightarrow> (UStatus + ListenHandle) \<times> state" where
  "registerListener failure handler st =
     (case failure of
        Some e \<Rightarrow> (Inl e, st)
      | None \<Rightarrow> (Inr (next_handle st),
                 st\<lparr>listeners := listeners st @ [(next_handle st, handler)],
                    next_handle := Suc (next_handle st)\<rparr>))"

definition send :: "UStatus \<Rightarrow> UMessage \<Rightarrow> state \<Rightarrow> UStatus \<times> state" where
  "send result m st = (result, st\<lparr>send_calls := send_calls st @ [m]\<rparr>)"

definition release_handle :: "ListenHandle \<Rightarrow> state \<Rightarrow> state" where
  "release_handle h st =
     st\<lparr>listeners := filter (\<lambda>l. fst l \<noteq> h) (listeners st), released := released st @ [h]\<rparr>"

definition deliver :: "ListenHandle \<Rightarrow> UMessage \<Rightarrow> state \<Rightarrow> state" where
  "deliver h m st =
     (case map_of (listeners st) h of
        None \<Rightarrow> st
      | Some (rid, i) \<Rightarrow> wrapper rid i m st)"

section \<open>The expiration service and the client\<close>

text \<open>\<open>ExpireWorker::enqueue\<close>, reached through \<open>ExpireService::enqueue\<close>, which tags the
  waiter with the instance id of the service.\<close>

definition ExpireWorker_enqueue :: "PendingRequest \<Rightarrow> state \<Rightarrow> state" where
  "ExpireWorker_enqueue p st = st\<lparr>pending := pq_emplace p (pending st)\<rparr>"

definition ExpireService_enqueue ::
  "64 word \<Rightarrow> int \<Rightarrow> ListenHandle \<Rightarrow> nat \<Rightarrow> state \<Rightarrow> state" where
  "ExpireService_enqueue iid when h ex st =
     ExpireWorker_enqueue
       \<lparr>when_expire = when, response_listener = h, expire = ex, instance_id = iid\<rparr> st"

text \<open>\<open>RpcClient::invokeMethod(v1::UMessage&&, Callback&&)\<close> at clock reading \<open>now\<close>. The
  other overloads build the request from the stored template, or wrap a promise into the
  continuation, and call this one.\<close>

definition invokeMethod ::
  "RpcClient \<Rightarrow> int \<Rightarrow> UStatus option \<Rightarrow> UStatus \<Rightarrow> UMessage \<Rightarrow> state \<Rightarrow> state" where
  "invokeMethod client now reg_failure send_result request st =
     (let when = now + ttl client;
          rid = attr_id (attributes request);
          callback_once = length (once_flags st);
          st1 = st\<lparr>once_flags := once_flags st @ [False]\<rparr>;
          (maybe_handle, st2) = registerListener reg_failure (rid, callback_once) st1
      in case maybe_handle of
           Inl err \<Rightarrow> expire_lambda callback_once (StatusOf err) st2
         | Inr h \<Rightarrow>
             (let (sr, st3) = send send_result request st2;
                  st4 = (if code sr \<noteq> OK
                         then expire_lambda callback_once (StatusOf sr)
                                (st3\<lparr>early_expire := early_expire st3 @ [(callback_once, sr)]\<rparr>)
                         else st3)
              in ExpireService_enqueue (service_instance_id client) when h callback_once st4))"

section \<open>The expiration worker\<close>

definition shutdown_reason :: UStatus where
  "shutdown_reason = \<lparr>code = CANCELLED, message = ''ExpireWorker shutting down''\<rparr>"

definition discard_reason :: UStatus where
  "discard_reason = \<lparr>code = CANCELLED, message = ''RpcClient for this request was discarded''\<rparr>"

definition expire_reason :: UStatus where
  "expire_reason =
     \<lparr>code = DEADLINE_EXCEEDED, message = ''Request expired before response received''\<rparr>"

text \<open>A call of a waiter's \<open>expire\<close> by the queue machinery: the call is recorded with the
  reason and with whether a waiter holding this closure is in the container right now, then
  the closure runs.\<close>

definition queued :: "nat \<Rightarrow> state \<Rightarrow> bool" where
  "queued ex st = (ex \<in> set (map expire (pending st)))"

definition notify :: "UStatus \<Rightarrow> nat \<Rightarrow> state \<Rightarrow> state" where
  "notify reason ex st =
     expire_lambda ex (StatusOf reason)
       (st\<lparr>notified := notified st @ [(ex, reason, queued ex st)]\<rparr>)"

text \<open>\<open>ScrubablePendingQueue::scrub\<close>: the \<open>expire\<close> closures of the removed waiters, and
  the container after \<open>erase\<close>/\<open>remove_if\<close> (the kept elements in their old relative
  order). Shrinking the capacity has no effect on the contents.\<close>

definition ScrubablePendingQueue_scrub ::
  "64 word \<Rightarrow> PendingRequest list \<Rightarrow> nat list \<times> PendingRequest list" where
  "ScrubablePendingQueue_scrub iid c =
     (map expire (filter (\<lambda>p. iid = instance_id p) c),
      filter (\<lambda>p. \<not> (iid = instance_id p)) c)"

text \<open>\<open>ExpireWorker::scrub\<close>, called by \<open>~ExpireService\<close>. The removed waiters are destroyed
  with the erased tail of the vector, which releases their listener handles; the collected
  closures are called afterwards, outside the lock.\<close>

definition ExpireWorker_scrub :: "64 word \<Rightarrow> state \<Rightarrow> state" where
  "ExpireWorker_scrub iid st =
     (let (all_expired, c') = ScrubablePendingQueue_scrub iid (pending st);
          dropped = map response_listener (filter (\<lambda>p. iid = instance_id p) (pending st));
          st1 = st\<lparr>pending := c'\<rparr>;
          st2 = foldl (\<lambda>s h. release_handle h s) st1 dropped
      in foldl (\<lambda>s ex. notify discard_reason ex s) st2 all_expired)"

text \<open>One pass through the body of the loop of \<open>ExpireWorker::doWork\<close> at clock reading
  \<open>now\<close>. The handle moved out of the top element dies at the end of the locked block,
  before the closure is called; the waits of the other branch change nothing.\<close>

definition doWork_iteration :: "int \<Rightarrow> state \<Rightarrow> state" where
  "doWork_iteration now st =
     (if pending st \<noteq> [] \<and> when_expire (top (pending st)) \<le> now
      then (let maybe_expire = expire (top (pending st));
                expired_handle = response_listener (top (pending st));
                st1 = st\<lparr>pending := pq_pop (pending st)\<rparr>;
                st2 = release_handle expired_handle st1
            in notify expire_reason maybe_expire st2)
      else st)"

text \<open>The loop itself, for the clock readings of its successive passes; it ends when
  \<open>stop_\<close> is set.\<close>

fun doWork :: "int list \<Rightarrow> state \<Rightarrow> state" where
  "doWork [] st = st"
| "doWork (now # nows) st = (if stop st then st else doWork nows (doWork_iteration now st))"

text \<open>\<open>~ScrubablePendingQueue\<close> calls every remaining closure while the waiters are still
  in \<open>c\<close>; the vector is destroyed afterwards, which releases the handles.
  \<open>~ExpireWorker\<close> sets \<open>stop_\<close>, joins the worker and then destroys its members.\<close>

definition ScrubablePendingQueue_dtor :: "state \<Rightarrow> state" where
  "ScrubablePendingQueue_dtor st =
     (let st1 = foldl (\<lambda>s p. notify shutdown_reason (expire p) s) st (pending st);
          st2 = foldl (\<lambda>s p. release_handle (response_listener p) s) st1 (pending st1)
      in st2\<lparr>pending := []\<rparr>)"

definition ExpireWorker_dtor :: "state \<Rightarrow> state" where
  "ExpireWorker_dtor st = ScrubablePendingQueue_dtor (st\<lparr>stop := True\<rparr>)"

section \<open>Runs of the system\<close>

text \<open>The actions that the callers, the transport, the worker thread and the destructors
  perform on the shared state, each atomic here, in any interleaving.\<close>

datatype action =
    Invoke RpcClient int "UStatus option" UStatus UMessage
  | Deliver ListenHandle UMessage
  | Work "int list"
  | Discard "64 word"
  | Shutdown

fun step :: "action \<Rightarrow> state \<Rightarrow> state" where
  "step (Invoke client now reg_failure send_result request) st =
     invokeMethod client now reg_failure send_result request st"
| "step (Deliver h m) st = deliver h m st"
| "step (Work nows) st = doWork nows st"
| "step (Discard iid) st = ExpireWorker_scrub iid st"
| "step Shutdown st = ExpireWorker_dtor st"

definition run :: "action list \<Rightarrow> state \<Rightarrow> state" where
  "run acts st = foldl (\<lambda>s a. step a s) st acts"

section \<open>Notions used to state the properties\<close>

text \<open>How often the continuation of invocation \<open>i\<close> has been invoked.\<close>

definition count_calls :: "nat \<Rightarrow> state \<Rightarrow> nat" where
  "count_calls i st = length (filter (\<lambda>c. fst c = i) (calls st))"

text \<open>The once-flag of an invocation is passed exactly when its continuation has been
  invoked, and an invocation whose flag is not passed has a waiter in the queue.\<close>

definition guard_inv :: "state \<Rightarrow> bool" where
  "guard_inv st \<longleftrightarrow>
     (\<forall>i. count_calls i st = (if i < length (once_flags st) \<and> once_flags st ! i then 1 else 0))"

definition armed_inv :: "state \<Rightarrow> bool" where
  "armed_inv st \<longleftrightarrow> (\<forall>i < length (once_flags st). once_flags st ! i \<or> queued i st)"

text \<open>The waiter that \<open>invokeMethod\<close> hands to the expiration service when it is called in
  state \<open>st\<close> and the registration succeeds.\<close>

definition armed_waiter :: "RpcClient \<Rightarrow> int \<Rightarrow> state \<Rightarrow> PendingRequest" where
  "armed_waiter client now st =
     \<lparr>when_expire = now + ttl client, response_listener = next_handle st,
      expire = length (once_flags st), instance_id = service_instance_id client\<rparr>"

text \<open>Every handle the transport has handed out is either still held by exactly one queued
  waiter or has been released exactly once, and the registered listeners are those of the
  queued waiters.\<close>

definition handle_inv :: "state \<Rightarrow> bool" where
  "handle_inv st \<longleftrightarrow>
     mset (released st) + mset (map response_listener (pending st)) = mset [0..<next_handle st]
     \<and> mset (map fst (listeners st)) = mset (map response_listener (pending st))"

text \<open>The closures called by the queue machinery and the closures of the queued waiters
  are pairwise different closures of invocations made so far; a recorded call found its
  waiter in the container exactly when it was made by the queue's destructor.\<close>

definition notify_inv :: "state \<Rightarrow> bool" where
  "notify_inv st \<longleftrightarrow>
     mset (map fst (notified st)) + mset (map expire (pending st))
       \<subseteq># mset [0..<length (once_flags st)]
     \<and> (\<forall>n \<in> set (notified st).
          (if snd (snd n) then fst (snd n) = shutdown_reason
           else fst (snd n) = expire_reason \<or> fst (snd n) = discard_reason))"

text \<open>Whatever \<open>invokeMethod\<close> has called itself after a failed \<open>send\<close> is the closure
  of one invocation only, the continuation of that invocation has received the send
  status, and the closure is held by a queued waiter or has since been called by the queue
  machinery as well.\<close>

definition early_inv :: "state \<Rightarrow> bool" where
  "early_inv st \<longleftrightarrow>
     distinct (map fst (early_expire st))
     \<and> (\<forall>e \<in> set (early_expire st).
          code (snd e) \<noteq> OK \<and> fst e < length (once_flags st)
          \<and> (fst e, Inl (StatusOf (snd e))) \<in> set (calls st)
          \<and> (queued (fst e) st \<or> fst e \<in> fst ` set (notified st)))"

text \<open>The heap property of the container under \<open>std::greater\<close>: no element compares
  greater than one of its children, on the first \<open>n\<close> positions and on the whole
  container.\<close>

definition heap_on :: "nat \<Rightarrow> PendingRequest list \<Rightarrow> bool" where
  "heap_on n c \<longleftrightarrow> (\<forall>i. 0 < i \<and> i < n \<longrightarrow> \<not> gt (c ! ((i - 1) div 2)) (c ! i))"

definition is_heap :: "PendingRequest list \<Rightarrow> bool" where
  "is_heap c = heap_on (length c) c"

text \<open>The waiters that the loop of \<open>doWork\<close> takes out of the container \<open>c\<close>, in order,
  when its passes read the clock values \<open>nows\<close> and nothing else touches the container in
  between.\<close>

fun expired_by :: "int list \<Rightarrow> PendingRequest list \<Rightarrow> PendingRequest list" where
  "expired_by [] c = []"
| "expired_by (now # nows) c =
     (if c \<noteq> [] \<and> when_expire (top c) \<le> now
      then top c # expired_by nows (pq_pop c)
      else expired_by nows c)"

text \<open>Sample data for the concrete instances.\<close>

abbreviation sample_request :: "64 word \<Rightarrow> UMessage" where
  "sample_request n \<equiv>
     \<lparr>attributes = \<lparr>attr_id = \<lparr>msb = 0, lsb = n\<rparr>, reqid = \<lparr>msb = 0, lsb = 0\<rparr>,
        commstatus = OK, source = ''client'', sink = ''method''\<rparr>, payload = ''ping''\<rparr>"

abbreviation sample_response :: "64 word \<Rightarrow> UCode \<Rightarrow> UMessage" where
  "sample_response n c \<equiv>
     \<lparr>attributes = \<lparr>attr_id = \<lparr>msb = 1, lsb = n\<rparr>, reqid = \<lparr>msb = 0, lsb = n\<rparr>,
        commstatus = c, source = ''method'', sink = ''client''\<rparr>, payload = ''pong''\<rparr>"

abbreviation sample_client :: "int \<Rightarrow> 64 word \<Rightarrow> RpcClient" where
  "sample_client t n \<equiv> \<lparr>ttl = t, service_instance_id = n\<rparr>"

abbreviation ok_status :: UStatus where
  "ok_status \<equiv> \<lparr>code = OK, message = ''sent''\<rparr>"

abbreviation unavailable :: UStatus where
  "unavailable \<equiv> \<lparr>code = UNAVAILABLE, message = ''transport down''\<rparr>"

section \<open>The heap operations keep the elements\<close>

lemma length_push_heap_loop [simp]: "length (push_heap_loop c h t v) = length c"
proof (induction c h t v rule: push_heap_loop.induct)
  case (1 c h t v)
  show ?case
    using 1 by (subst push_heap_loop.simps) (simp add: Let_def)
qed

lemma mset_move_hole:
  assumes "h < length c" "p < length c" "p \<noteq> h"
  shows "mset (c[h := c ! p, p := v]) = mset (c[h := v])"
proof -
  let ?d = "c[h := v]"
  have "mset (?d[h := ?d ! p, p := ?d ! h]) = mset ?d"
    using assms by (intro mset_swap) simp_all
  moreover have "?d[h := ?d ! p, p := ?d ! h] = c[h := c ! p, p := v]"
    using assms by simp
  ultimately show ?thesis by simp
qed

lemma mset_push_heap_loop:
  "h < length c \<Longrightarrow> mset (push_heap_loop c h t v) = mset (c[h := v])"
proof (induction c h t v rule: push_heap_loop.induct)
  case (1 c h t v)
  let ?p = "(h - 1) div 2"
  show ?case
  proof (cases "h > t \<and> gt (c ! ?p) v")
    case True
    then have ph: "?p < h" by auto
    have "push_heap_loop c h t v = push_heap_loop (c[h := c ! ?p]) ?p t v"
      using True by (subst push_heap_loop.simps) (simp add: Let_def)
    also have "mset \<dots> = mset (c[h := c ! ?p, ?p := v])"
      using 1 True ph by simp
    also have "\<dots> = mset (c[h := v])"
      using 1(2) ph by (intro mset_move_hole) simp_all
    finally show ?thesis .
  next
    case False
    then show ?thesis by (subst push_heap_loop.simps) (auto simp add: Let_def)
  qed
qed

lemma nth_push_heap_loop:
  "h < j \<Longrightarrow> push_heap_loop c h t v ! j = c ! j"
proof (induction c h t v rule: push_heap_loop.induct)
  case (1 c h t v)
  let ?p = "(h - 1) div 2"
  show ?case
  proof (cases "h > t \<and> gt (c ! ?p) v")
    case True
    then have ph: "?p < h" by auto
    have "push_heap_loop c h t v = push_heap_loop (c[h := c ! ?p]) ?p t v"
      using True by (subst push_heap_loop.simps) (simp add: Let_def)
    then show ?thesis using 1 True ph by simp
  next
    case False
    then show ?thesis using 1(2) by (subst push_heap_loop.simps) (auto simp add: Let_def)
  qed
qed

lemma mset_push_heap [simp]: "mset (push_heap c) = mset c"
proof (cases "c = []")
  case True
  then show ?thesis by (simp add: push_heap_def)
next
  case False
  then have "c[length c - 1 := last c] = c"
    by (simp add: last_conv_nth)
  then show ?thesis using False by (simp add: push_heap_def mset_push_heap_loop)
qed

lemma mset_pq_emplace [simp]: "mset (pq_emplace p c) = add_mset p (mset c)"
  by (simp add: pq_emplace_def)

lemma adjust_heap_loop_facts:
  "adjust_heap_loop c s len = (c1, s1) \<Longrightarrow> s < len \<Longrightarrow> len \<le> length c \<Longrightarrow>
     length c1 = length c \<and> s1 < len \<and> s \<le> s1 \<and> mset (c1[s1 := v]) = mset (c[s := v]) \<and>
     (\<forall>j\<ge>len. c1 ! j = c ! j)"
proof (induction c s len arbitrary: c1 s1 rule: adjust_heap_loop.induct)
  case (1 c s len)
  show ?case
  proof (cases "s < (len - 1) div 2")
    case True
    define sc where "sc = 2 * (s + 1)"
    define sc' where "sc' = (if gt (c ! sc) (c ! (sc - 1)) then sc - 1 else sc)"
    have b: "sc' < len" "s < sc'" using True by (auto simp: sc_def sc'_def)
    have eq: "adjust_heap_loop (c[s := c ! sc']) sc' len = (c1, s1)"
      using 1(2) True by (subst (asm) adjust_heap_loop.simps) (auto simp add: Let_def sc_def sc'_def split: if_splits)
    have ih: "length c1 = length (c[s := c ! sc']) \<and> s1 < len \<and> sc' \<le> s1 \<and>
        mset (c1[s1 := v]) = mset (c[s := c ! sc', sc' := v]) \<and> (\<forall>j\<ge>len. c1 ! j = c[s := c ! sc'] ! j)"
      using "1.IH"[OF True sc_def sc'_def eq] b 1(4) by simp
    have "mset (c[s := c ! sc', sc' := v]) = mset (c[s := v])"
      using b 1(3,4) by (intro mset_move_hole) simp_all
    then show ?thesis using ih b 1(3) by auto
  next
    case False
    then have "c1 = c" "s1 = s"
      using 1(2) by (subst (asm) adjust_heap_loop.simps, simp)+
    then show ?thesis using 1(3) by simp
  qed
qed

lemma adjust_heap_facts:
  assumes "0 < len" "len \<le> length c"
  shows "length (adjust_heap c 0 len v) = length c"
    and "mset (adjust_heap c 0 len v) = mset (c[0 := v])"
    and "\<forall>j\<ge>len. adjust_heap c 0 len v ! j = c ! j"
proof -
  obtain c1 s1 where l: "adjust_heap_loop c 0 len = (c1, s1)" by force
  note f = adjust_heap_loop_facts[OF l assms(1) assms(2), of v]
  define b where "b \<longleftrightarrow> len mod 2 = 0 \<and> s1 = (len - 2) div 2"
  define c2 where "c2 = (if b then c1[s1 := c1 ! (2 * (s1 + 1) - 1)] else c1)"
  define h2 where "h2 = (if b then 2 * (s1 + 1) - 1 else s1)"
  have r: "adjust_heap c 0 len v = push_heap_loop c2 h2 0 v"
    by (simp add: adjust_heap_def l c2_def h2_def b_def)
  have h2: "h2 < len"
  proof (cases b)
    case True
    then have "len mod 2 = 0" "s1 = (len - 2) div 2" by (simp_all add: b_def)
    then have "2 * (s1 + 1) - 1 < len" using assms(1) by presburger
    then show ?thesis using True by (simp add: h2_def)
  next
    case False
    then show ?thesis using f by (simp add: h2_def)
  qed
  have len2: "length c2 = length c" using f by (simp add: c2_def)
  have m2: "mset (c2[h2 := v]) = mset (c[0 := v])"
  proof (cases b)
    case True
    have "s1 < 2 * (s1 + 1) - 1" by simp
    moreover have "2 * (s1 + 1) - 1 < length c1" using h2 True f assms(2) by (simp add: h2_def)
    ultimately have "mset (c1[s1 := c1 ! (2 * (s1 + 1) - 1), 2 * (s1 + 1) - 1 := v]) = mset (c1[s1 := v])"
      using f assms(2) by (intro mset_move_hole) simp_all
    then show ?thesis using True f by (simp add: c2_def h2_def)
  next
    case False
    then show ?thesis using f by (simp add: c2_def h2_def)
  qed
  show "length (adjust_heap c 0 len v) = length c" using r len2 by simp
  show "mset (adjust_heap c 0 len v) = mset (c[0 := v])"
    using r m2 h2 len2 assms(2) by (simp add: mset_push_heap_loop)
  show "\<forall>j\<ge>len. adjust_heap c 0 len v ! j = c ! j"
  proof (intro allI impI)
    fix j assume j: "len \<le> j"
    have "adjust_heap c 0 len v ! j = c2 ! j" using r h2 j by (simp add: nth_push_heap_loop)
    also have "\<dots> = c1 ! j" using j f h2 by (cases b) (simp_all add: c2_def)
    also have "\<dots> = c ! j" using f j by simp
    finally show "adjust_heap c 0 len v ! j = c ! j" .
  qed
qed

lemma pop_heap_facts:
  assumes "c \<noteq> []"
  shows "length (pop_heap c) = length c" and "mset (pop_heap c) = mset c"
    and "last (pop_heap c) = hd c"
proof -
  show "length (pop_heap c) = length c"
    by (simp add: pop_heap_def Let_def adjust_heap_facts)
  show "mset (pop_heap c) = mset c"
  proof (cases "length c > 1")
    case True
    let ?l = "length c - 1"
    have "mset (pop_heap c) = mset (c[?l := c ! 0, 0 := c ! ?l])"
      using True by (simp add: pop_heap_def Let_def adjust_heap_facts)
    also have "\<dots> = mset c" using True by (intro mset_swap) auto
    finally show ?thesis .
  next
    case False
    then show ?thesis by (simp add: pop_heap_def)
  qed
  show "last (pop_heap c) = hd c"
  proof (cases "length c > 1")
    case True
    let ?l = "length c - 1"
    let ?r = "adjust_heap (c[?l := c ! 0]) 0 ?l (c ! ?l)"
    have len: "length ?r = length c" using True by (simp add: adjust_heap_facts)
    have "\<forall>j\<ge>?l. ?r ! j = c[?l := c ! 0] ! j"
      using True by (intro adjust_heap_facts) simp_all
    then have "?r ! ?l = c ! 0" using True by simp
    moreover have "?r \<noteq> []" using len True by auto
    then have "last ?r = ?r ! ?l" using len by (simp add: last_conv_nth)
    ultimately show ?thesis using True assms by (simp add: pop_heap_def Let_def hd_conv_nth)
  next
    case False
    then have "length c = 1" using assms by (cases c) auto
    then show ?thesis using assms by (cases c) (auto simp: pop_heap_def)
  qed
qed

lemma mset_pq_pop: "c \<noteq> [] \<Longrightarrow> add_mset (hd c) (mset (pq_pop c)) = mset c"
proof -
  assume ne: "c \<noteq> []"
  then have ne': "pop_heap c \<noteq> []" using pop_heap_facts(1)[OF ne] by auto
  have "mset (pop_heap c) = mset (butlast (pop_heap c) @ [last (pop_heap c)])"
    using ne' by simp
  then show ?thesis using pop_heap_facts[OF ne] by (simp add: pq_pop_def)
qed

subsection \<open>What each operation changes\<close>

lemma call_once_frame [simp]:
  "pending (call_once i r st) = pending st"
  "listeners (call_once i r st) = listeners st"
  "next_handle (call_once i r st) = next_handle st"
  "send_calls (call_once i r st) = send_calls st"
  "released (call_once i r st) = released st"
  "stop (call_once i r st) = stop st"
  "early_expire (call_once i r st) = early_expire st"
  "notified (call_once i r st) = notified st"
  by (simp_all add: call_once_def)

lemma once_flags_call_once [simp]:
  "once_flags (call_once i r st) = (once_flags st)[i := True]"
proof (cases "i < length (once_flags st)")
  case True
  then show ?thesis
    using list_update_id[of "once_flags st" i] by (cases "once_flags st ! i") (auto simp: call_once_def)
next
  case False
  then show ?thesis by (simp add: call_once_def list_update_beyond)
qed

lemma calls_call_once:
  "calls (call_once i r st) =
     calls st @ (if i < length (once_flags st) \<and> \<not> once_flags st ! i then [(i, r)] else [])"
  by (simp add: call_once_def)

lemma queued_call_once [simp]: "queued j (call_once i r st) = queued j st"
  by (simp add: queued_def)

lemma expire_lambda_frame [simp]:
  "pending (expire_lambda i r st) = pending st"
  "listeners (expire_lambda i r st) = listeners st"
  "next_handle (expire_lambda i r st) = next_handle st"
  "send_calls (expire_lambda i r st) = send_calls st"
  "released (expire_lambda i r st) = released st"
  "stop (expire_lambda i r st) = stop st"
  "early_expire (expire_lambda i r st) = early_expire st"
  "notified (expire_lambda i r st) = notified st"
  "once_flags (expire_lambda i r st) = (once_flags st)[i := True]"
  by (simp_all add: expire_lambda_def)

lemma calls_expire_lambda:
  "calls (expire_lambda i r st) =
     calls st @ (if i < length (once_flags st) \<and> \<not> once_flags st ! i then [(i, Inl r)] else [])"
  by (simp add: expire_lambda_def calls_call_once)

lemma wrapper_frame [simp]:
  "pending (wrapper rid i m st) = pending st"
  "listeners (wrapper rid i m st) = listeners st"
  "next_handle (wrapper rid i m st) = next_handle st"
  "send_calls (wrapper rid i m st) = send_calls st"
  "released (wrapper rid i m st) = released st"
  "stop (wrapper rid i m st) = stop st"
  "early_expire (wrapper rid i m st) = early_expire st"
  "notified (wrapper rid i m st) = notified st"
  by (simp_all add: wrapper_def)

lemma deliver_frame [simp]:
  "pending (deliver h m st) = pending st"
  "listeners (deliver h m st) = listeners st"
  "next_handle (deliver h m st) = next_handle st"
  "send_calls (deliver h m st) = send_calls st"
  "released (deliver h m st) = released st"
  "stop (deliver h m st) = stop st"
  "early_expire (deliver h m st) = early_expire st"
  "notified (deliver h m st) = notified st"
  by (simp_all add: deliver_def split: option.splits)

lemma notify_frame [simp]:
  "pending (notify r ex st) = pending st"
  "listeners (notify r ex st) = listeners st"
  "next_handle (notify r ex st) = next_handle st"
  "send_calls (notify r ex st) = send_calls st"
  "released (notify r ex st) = released st"
  "stop (notify r ex st) = stop st"
  "early_expire (notify r ex st) = early_expire st"
  "notified (notify r ex st) = notified st @ [(ex, r, queued ex st)]"
  "once_flags (notify r ex st) = (once_flags st)[ex := True]"
  by (simp_all add: notify_def)

lemma calls_notify:
  "calls (notify r ex st) =
     calls st @ (if ex < length (once_flags st) \<and> \<not> once_flags st ! ex
                 then [(ex, Inl (StatusOf r))] else [])"
  by (simp add: notify_def calls_expire_lambda)

lemma queued_notify [simp]: "queued j (notify r ex st) = queued j st"
  by (simp add: queued_def)

lemma release_handle_frame [simp]:
  "pending (release_handle h st) = pending st"
  "once_flags (release_handle h st) = once_flags st"
  "calls (release_handle h st) = calls st"
  "next_handle (release_handle h st) = next_handle st"
  "send_calls (release_handle h st) = send_calls st"
  "stop (release_handle h st) = stop st"
  "early_expire (release_handle h st) = early_expire st"
  "notified (release_handle h st) = notified st"
  "released (release_handle h st) = released st @ [h]"
  "listeners (release_handle h st) = filter (\<lambda>l. fst l \<noteq> h) (listeners st)"
  by (simp_all add: release_handle_def)

lemma queued_release_handle [simp]: "queued j (release_handle h st) = queued j st"
  by (simp add: queued_def)

lemma release_all_frame [simp]:
  "pending (foldl (\<lambda>s h. release_handle h s) st hs) = pending st"
  "once_flags (foldl (\<lambda>s h. release_handle h s) st hs) = once_flags st"
  "calls (foldl (\<lambda>s h. release_handle h s) st hs) = calls st"
  "next_handle (foldl (\<lambda>s h. release_handle h s) st hs) = next_handle st"
  "send_calls (foldl (\<lambda>s h. release_handle h s) st hs) = send_calls st"
  "stop (foldl (\<lambda>s h. release_handle h s) st hs) = stop st"
  "early_expire (foldl (\<lambda>s h. release_handle h s) st hs) = early_expire st"
  "notified (foldl (\<lambda>s h. release_handle h s) st hs) = notified st"
  "released (foldl (\<lambda>s h. release_handle h s) st hs) = released st @ hs"
  "listeners (foldl (\<lambda>s h. release_handle h s) st hs) =
     filter (\<lambda>l. fst l \<notin> set hs) (listeners st)"
  by (induction hs arbitrary: st; simp; metis)+

lemma notify_all_frame [simp]:
  "pending (foldl (\<lambda>s ex. notify r ex s) st exs) = pending st"
  "listeners (foldl (\<lambda>s ex. notify r ex s) st exs) = listeners st"
  "next_handle (foldl (\<lambda>s ex. notify r ex s) st exs) = next_handle st"
  "send_calls (foldl (\<lambda>s ex. notify r ex s) st exs) = send_calls st"
  "released (foldl (\<lambda>s ex. notify r ex s) st exs) = released st"
  "stop (foldl (\<lambda>s ex. notify r ex s) st exs) = stop st"
  "early_expire (foldl (\<lambda>s ex. notify r ex s) st exs) = early_expire st"
  "length (once_flags (foldl (\<lambda>s ex. notify r ex s) st exs)) = length (once_flags st)"
  by (induction exs arbitrary: st; simp)+

lemma queued_notify_all [simp]:
  "queued j (foldl (\<lambda>s ex. notify r ex s) st exs) = queued j st"
  by (simp add: queued_def)

lemma notified_notify_all:
  "notified (foldl (\<lambda>s ex. notify r ex s) st exs) =
     notified st @ map (\<lambda>ex. (ex, r, queued ex st)) exs"
  by (induction exs arbitrary: st) simp_all

lemma once_flags_notify_all:
  "i < length (once_flags st) \<Longrightarrow>
     once_flags (foldl (\<lambda>s ex. notify r ex s) st exs) ! i = (once_flags st ! i \<or> i \<in> set exs)"
proof (induction exs arbitrary: st)
  case Nil
  then show ?case by simp
next
  case (Cons a exs)
  have "once_flags (foldl (\<lambda>s ex. notify r ex s) (notify r a st) exs) ! i =
          (once_flags (notify r a st) ! i \<or> i \<in> set exs)"
    using Cons.prems by (intro Cons.IH) simp
  then show ?case using Cons.prems by (cases "a = i") simp_all
qed

subsection \<open>The composite operations, unfolded\<close>

lemma invokeMethod_failed:
  "invokeMethod client now (Some e) sr request st =
     expire_lambda (length (once_flags st)) (StatusOf e)
       (st\<lparr>once_flags := once_flags st @ [False]\<rparr>)"
  by (simp add: invokeMethod_def registerListener_def Let_def)

lemma invokeMethod_registered:
  "invokeMethod client now None sr request st =
     (let st3 = st\<lparr>once_flags := once_flags st @ [False],
                   listeners := listeners st @
                     [(next_handle st, attr_id (attributes request), length (once_flags st))],
                   next_handle := Suc (next_handle st),
                   send_calls := send_calls st @ [request]\<rparr>;
          st4 = (if code sr \<noteq> OK
                 then expire_lambda (length (once_flags st)) (StatusOf sr)
                        (st3\<lparr>early_expire := early_expire st3 @ [(length (once_flags st), sr)]\<rparr>)
                 else st3)
      in st4\<lparr>pending := pq_emplace (armed_waiter client now st) (pending st4)\<rparr>)"
  by (simp add: invokeMethod_def registerListener_def send_def Let_def ExpireService_enqueue_def
      ExpireWorker_enqueue_def armed_waiter_def)

lemma ExpireWorker_scrub_unfold:
  "ExpireWorker_scrub iid st =
     foldl (\<lambda>s ex. notify discard_reason ex s)
       (foldl (\<lambda>s h. release_handle h s)
          (st\<lparr>pending := filter (\<lambda>p. \<not> iid = instance_id p) (pending st)\<rparr>)
          (map response_listener (filter (\<lambda>p. iid = instance_id p) (pending st))))
       (map expire (filter (\<lambda>p. iid = instance_id p) (pending st)))"
  by (simp add: ExpireWorker_scrub_def ScrubablePendingQueue_scrub_def Let_def)

lemma ScrubablePendingQueue_dtor_unfold:
  "ScrubablePendingQueue_dtor st =
     (foldl (\<lambda>s h. release_handle h s)
        (foldl (\<lambda>s ex. notify shutdown_reason ex s) st (map expire (pending st)))
        (map response_listener (pending st)))\<lparr>pending := []\<rparr>"
proof -
  have a: "foldl (\<lambda>s p. notify shutdown_reason (expire p) s) st ps =
        foldl (\<lambda>s ex. notify shutdown_reason ex s) st (map expire ps)" for ps
    by (simp add: foldl_map)
  have b: "foldl (\<lambda>s p. release_handle (response_listener p) s) s ps =
        foldl (\<lambda>s h. release_handle h s) s (map response_listener ps)" for s ps
    by (simp add: foldl_map)
  show ?thesis
    unfolding ScrubablePendingQueue_dtor_def Let_def a b by simp
qed

lemma doWork_iteration_due:
  "pending st \<noteq> [] \<Longrightarrow> when_expire (hd (pending st)) \<le> now \<Longrightarrow>
     doWork_iteration now st =
       notify expire_reason (expire (hd (pending st)))
         (release_handle (response_listener (hd (pending st)))
            (st\<lparr>pending := pq_pop (pending st)\<rparr>))"
  by (simp add: doWork_iteration_def top_def Let_def)

lemma doWork_iteration_idle:
  "pending st = [] \<or> now < when_expire (hd (pending st)) \<Longrightarrow> doWork_iteration now st = st"
  by (auto simp add: doWork_iteration_def top_def)

subsection \<open>Induction over runs\<close>

lemma run_Nil [simp]: "run [] st = st"
  by (simp add: run_def)

lemma run_snoc [simp]: "run (acts @ [a]) st = step a (run acts st)"
  by (simp add: run_def)

lemma run_invariant:
  assumes "P init" and "\<And>a st. P st \<Longrightarrow> P (step a st)"
  shows "P (run acts init)"
  using assms by (induction acts rule: rev_induct) simp_all

lemma doWork_invariant:
  assumes "P st" and "\<And>now st. P st \<Longrightarrow> P (doWork_iteration now st)"
  shows "P (doWork nows st)"
  using assms by (induction nows arbitrary: st) simp_all

subsection \<open>The one-shot guard counts the calls\<close>

lemma count_calls_call_once:
  "count_calls j (call_once i r st) =
     count_calls j st + (if j = i \<and> i < length (once_flags st) \<and> \<not> once_flags st ! i then 1 else 0)"
  by (simp add: count_calls_def calls_call_once)

lemma guard_inv_cong:
  "once_flags st' = once_flags st \<Longrightarrow> calls st' = calls st \<Longrightarrow> guard_inv st' = guard_inv st"
  by (simp add: guard_inv_def count_calls_def)

lemma guard_inv_call_once:
  assumes "guard_inv st" shows "guard_inv (call_once i r st)"
  unfolding guard_inv_def
proof
  fix j
  let ?f = "once_flags st"
  have c: "count_calls j st = (if j < length ?f \<and> ?f ! j then 1 else 0)"
    using assms by (simp add: guard_inv_def)
  show "count_calls j (call_once i r st) =
      (if j < length (once_flags (call_once i r st)) \<and> once_flags (call_once i r st) ! j
       then 1 else 0)"
  proof (cases "j = i")
    case True
    then show ?thesis using c by (cases "i < length ?f") (simp_all add: count_calls_call_once)
  next
    case False
    then show ?thesis using c by (simp add: count_calls_call_once)
  qed
qed

lemma guard_inv_alloc:
  assumes "guard_inv st" "once_flags st' = once_flags st @ [False]" "calls st' = calls st"
  shows "guard_inv st'"
  unfolding guard_inv_def
proof
  fix i
  have "count_calls i st' = count_calls i st" using assms(3) by (simp add: count_calls_def)
  then show "count_calls i st' = (if i < length (once_flags st') \<and> once_flags st' ! i then 1 else 0)"
    using assms(1,2) by (auto simp: guard_inv_def nth_append)
qed

lemma guard_inv_expire_lambda: "guard_inv st \<Longrightarrow> guard_inv (expire_lambda i r st)"
  by (simp add: expire_lambda_def guard_inv_call_once)

lemma guard_inv_wrapper: "guard_inv st \<Longrightarrow> guard_inv (wrapper rid i m st)"
  by (simp add: wrapper_def guard_inv_call_once)

lemma guard_inv_deliver: "guard_inv st \<Longrightarrow> guard_inv (deliver h m st)"
  by (simp add: deliver_def guard_inv_wrapper split: option.splits)

lemma guard_inv_notify: "guard_inv st \<Longrightarrow> guard_inv (notify r ex st)"
proof -
  assume g: "guard_inv st"
  have "guard_inv (st\<lparr>notified := notified st @ [(ex, r, queued ex st)]\<rparr>)"
    using g guard_inv_cong[of "st\<lparr>notified := notified st @ [(ex, r, queued ex st)]\<rparr>" st] by simp
  then show ?thesis by (simp add: notify_def guard_inv_expire_lambda)
qed

lemma guard_inv_notify_all:
  "guard_inv st \<Longrightarrow> guard_inv (foldl (\<lambda>s ex. notify r ex s) st exs)"
  by (induction exs arbitrary: st) (simp_all add: guard_inv_notify)

lemma guard_inv_release_all:
  "guard_inv (foldl (\<lambda>s h. release_handle h s) st hs) = guard_inv st"
  by (rule guard_inv_cong) simp_all

lemma guard_inv_invokeMethod:
  assumes "guard_inv st" shows "guard_inv (invokeMethod client now rf sr request st)"
proof (cases rf)
  case (Some e)
  have "guard_inv (st\<lparr>once_flags := once_flags st @ [False]\<rparr>)"
    using assms by (rule guard_inv_alloc) simp_all
  then show ?thesis using Some by (simp add: invokeMethod_failed guard_inv_expire_lambda)
next
  case None
  let ?st3 = "st\<lparr>once_flags := once_flags st @ [False],
                   listeners := listeners st @
                     [(next_handle st, attr_id (attributes request), length (once_flags st))],
                   next_handle := Suc (next_handle st),
                   send_calls := send_calls st @ [request]\<rparr>"
  let ?st3' = "?st3\<lparr>early_expire := early_expire ?st3 @ [(length (once_flags st), sr)]\<rparr>"
  let ?st4 = "if code sr \<noteq> OK
                 then expire_lambda (length (once_flags st)) (StatusOf sr) ?st3' else ?st3"
  have 3: "guard_inv ?st3" using assms by (rule guard_inv_alloc) simp_all
  have "guard_inv ?st3' = guard_inv ?st3" by (rule guard_inv_cong) simp_all
  then have "guard_inv ?st4" using 3 by (simp add: guard_inv_expire_lambda)
  moreover have "guard_inv (?st4\<lparr>pending := pq_emplace (armed_waiter client now st) (pending ?st4)\<rparr>)
     = guard_inv ?st4" by (rule guard_inv_cong) simp_all
  ultimately show ?thesis using None by (simp add: invokeMethod_registered Let_def)
qed

lemma guard_inv_doWork_iteration:
  assumes "guard_inv st" shows "guard_inv (doWork_iteration now st)"
proof (cases "pending st \<noteq> [] \<and> when_expire (hd (pending st)) \<le> now")
  case True
  have "guard_inv (release_handle (response_listener (hd (pending st)))
            (st\<lparr>pending := pq_pop (pending st)\<rparr>)) = guard_inv st"
    by (rule guard_inv_cong) simp_all
  then show ?thesis using True assms by (simp add: doWork_iteration_due guard_inv_notify)
next
  case False
  then show ?thesis using assms by (subst doWork_iteration_idle) auto
qed

lemma guard_inv_scrub:
  assumes "guard_inv st" shows "guard_inv (ExpireWorker_scrub iid st)"
proof -
  have "guard_inv (st\<lparr>pending := filter (\<lambda>p. \<not> iid = instance_id p) (pending st)\<rparr>) = guard_inv st"
    by (rule guard_inv_cong) simp_all
  then show ?thesis using assms
    by (simp add: ExpireWorker_scrub_unfold guard_inv_notify_all guard_inv_release_all)
qed

lemma guard_inv_dtor:
  assumes "guard_inv st" shows "guard_inv (ExpireWorker_dtor st)"
proof -
  have a: "guard_inv (st\<lparr>stop := True\<rparr>) = guard_inv st" by (rule guard_inv_cong) simp_all
  let ?s = "foldl (\<lambda>s h. release_handle h s)
        (foldl (\<lambda>s ex. notify shutdown_reason ex s) (st\<lparr>stop := True\<rparr>) (map expire (pending st)))
        (map response_listener (pending st))"
  have "guard_inv ?s" using a assms by (simp add: guard_inv_release_all guard_inv_notify_all)
  moreover have "guard_inv (?s\<lparr>pending := []\<rparr>) = guard_inv ?s" by (rule guard_inv_cong) simp_all
  ultimately show ?thesis
    by (simp add: ExpireWorker_dtor_def ScrubablePendingQueue_dtor_unfold)
qed

lemma guard_inv_step: "guard_inv st \<Longrightarrow> guard_inv (step a st)"
proof (cases a)
  case (Work nows)
  assume "guard_inv st"
  then have "guard_inv (doWork nows st)"
    by (rule doWork_invariant) (rule guard_inv_doWork_iteration)
  then show ?thesis using Work by simp
qed (simp_all add: guard_inv_invokeMethod guard_inv_deliver guard_inv_scrub guard_inv_dtor)

lemma guard_inv_init: "guard_inv init"
  by (simp add: guard_inv_def init_def count_calls_def)

lemma guard_inv_run: "guard_inv (run acts init)"
  by (rule run_invariant) (simp_all add: guard_inv_init guard_inv_step)

subsection \<open>An unresolved invocation has a waiter\<close>

lemma set_pq_emplace [simp]: "set (pq_emplace p c) = insert p (set c)"
proof -
  have "set_mset (mset (pq_emplace p c)) = set_mset (add_mset p (mset c))" by simp
  then show ?thesis by (simp del: mset_pq_emplace)
qed

lemma set_pq_pop: "c \<noteq> [] \<Longrightarrow> insert (hd c) (set (pq_pop c)) = set c"
proof -
  assume "c \<noteq> []"
  then have "add_mset (hd c) (mset (pq_pop c)) = mset c"
    by (rule mset_pq_pop)
  then have "set_mset (add_mset (hd c) (mset (pq_pop c))) = set_mset (mset c)"
    by (rule arg_cong)
  then show ?thesis by simp
qed

lemma armed_inv_call_once: "armed_inv st \<Longrightarrow> armed_inv (call_once i r st)"
  unfolding armed_inv_def
proof (intro allI impI)
  fix j
  assume a: "\<forall>i<length (once_flags st). once_flags st ! i \<or> queued i st"
    and j: "j < length (once_flags (call_once i r st))"
  then have "once_flags st ! j \<or> queued j st" by simp
  then show "once_flags (call_once i r st) ! j \<or> queued j (call_once i r st)"
    using j by (cases "i = j") auto
qed

lemma armed_inv_deliver: "armed_inv st \<Longrightarrow> armed_inv (deliver h m st)"
  by (simp add: deliver_def wrapper_def armed_inv_call_once split: option.splits)

lemma armed_inv_invokeMethod:
  assumes "armed_inv st" shows "armed_inv (invokeMethod client now rf sr request st)"
proof (cases rf)
  case (Some e)
  have "once_flags (invokeMethod client now rf sr request st) = once_flags st @ [True]"
    using Some by (simp add: invokeMethod_failed)
  moreover have "queued j (invokeMethod client now rf sr request st) = queued j st" for j
    using Some by (simp add: invokeMethod_failed queued_def)
  ultimately show ?thesis using assms
    by (auto simp: armed_inv_def nth_append)
next
  case None
  let ?n = "length (once_flags st)"
  let ?st' = "invokeMethod client now rf sr request st"
  have f: "once_flags ?st' = once_flags st @ [False] \<or> once_flags ?st' = once_flags st @ [True]"
    using None by (simp add: invokeMethod_registered Let_def)
  have q: "queued j ?st' \<longleftrightarrow> j = ?n \<or> queued j st" for j
    using None by (auto simp add: invokeMethod_registered Let_def queued_def armed_waiter_def)
  show ?thesis
    unfolding armed_inv_def
  proof (intro allI impI)
    fix j assume "j < length (once_flags ?st')"
    then have "j < ?n \<or> j = ?n" using f by auto
    then show "once_flags ?st' ! j \<or> queued j ?st'"
      using f q assms by (auto simp: armed_inv_def nth_append)
  qed
qed

lemma armed_inv_doWork_iteration:
  assumes "armed_inv st" shows "armed_inv (doWork_iteration now st)"
proof (cases "pending st \<noteq> [] \<and> when_expire (hd (pending st)) \<le> now")
  case True
  let ?ex = "expire (hd (pending st))"
  let ?st' = "doWork_iteration now st"
  have f: "once_flags ?st' = (once_flags st)[?ex := True]"
    using True by (simp add: doWork_iteration_due)
  have "expire ` set (pending st) = insert ?ex (expire ` set (pq_pop (pending st)))"
    using True set_pq_pop[of "pending st"] by (metis image_insert)
  then have q: "queued j st \<Longrightarrow> j = ?ex \<or> queued j ?st'" for j
    using True by (auto simp add: doWork_iteration_due queued_def)
  show ?thesis
    unfolding armed_inv_def
  proof (intro allI impI)
    fix j assume j: "j < length (once_flags ?st')"
    then have "once_flags st ! j \<or> queued j st" using assms f by (simp add: armed_inv_def)
    then show "once_flags ?st' ! j \<or> queued j ?st'"
      using q[of j] f j by (cases "j = ?ex") auto
  qed
next
  case False
  then show ?thesis using assms by (subst doWork_iteration_idle) auto
qed

lemma once_flags_scrub:
  "length (once_flags (ExpireWorker_scrub iid st)) = length (once_flags st)"
  "i < length (once_flags st) \<Longrightarrow>
     once_flags (ExpireWorker_scrub iid st) ! i =
       (once_flags st ! i \<or> i \<in> expire ` {p \<in> set (pending st). iid = instance_id p})"
  by (simp_all add: ExpireWorker_scrub_unfold once_flags_notify_all)

lemma pending_scrub:
  "pending (ExpireWorker_scrub iid st) = filter (\<lambda>p. \<not> iid = instance_id p) (pending st)"
  by (simp add: ExpireWorker_scrub_unfold)

lemma armed_inv_scrub:
  assumes "armed_inv st" shows "armed_inv (ExpireWorker_scrub iid st)"
  unfolding armed_inv_def
proof (intro allI impI)
  fix j assume "j < length (once_flags (ExpireWorker_scrub iid st))"
  then have j: "j < length (once_flags st)" by (simp add: once_flags_scrub)
  then have "once_flags st ! j \<or> queued j st" using assms by (simp add: armed_inv_def)
  then show "once_flags (ExpireWorker_scrub iid st) ! j \<or> queued j (ExpireWorker_scrub iid st)"
    using j by (auto simp: once_flags_scrub queued_def pending_scrub)
qed

lemma once_flags_dtor:
  "length (once_flags (ExpireWorker_dtor st)) = length (once_flags st)"
  "i < length (once_flags st) \<Longrightarrow>
     once_flags (ExpireWorker_dtor st) ! i = (once_flags st ! i \<or> queued i st)"
  by (simp_all add: ExpireWorker_dtor_def ScrubablePendingQueue_dtor_unfold once_flags_notify_all
      queued_def)

lemma pending_dtor [simp]: "pending (ExpireWorker_dtor st) = []"
  by (simp add: ExpireWorker_dtor_def ScrubablePendingQueue_dtor_unfold)

lemma all_passed_dtor:
  "armed_inv st \<Longrightarrow> i < length (once_flags st) \<Longrightarrow> once_flags (ExpireWorker_dtor st) ! i"
  by (simp add: once_flags_dtor armed_inv_def)

lemma armed_inv_dtor: "armed_inv st \<Longrightarrow> armed_inv (ExpireWorker_dtor st)"
  by (simp add: armed_inv_def once_flags_dtor)

lemma armed_inv_step: "armed_inv st \<Longrightarrow> armed_inv (step a st)"
proof (cases a)
  case (Work nows)
  assume "armed_inv st"
  then have "armed_inv (doWork nows st)"
    by (rule doWork_invariant) (rule armed_inv_doWork_iteration)
  then show ?thesis using Work by simp
qed (simp_all add: armed_inv_invokeMethod armed_inv_deliver armed_inv_scrub armed_inv_dtor)

lemma armed_inv_run: "armed_inv (run acts init)"
  by (rule run_invariant) (simp_all add: armed_inv_step, simp add: armed_inv_def init_def)


subsection \<open>What the notifications deliver\<close>

lemma calls_notify_all:
  "set (calls (foldl (\<lambda>s ex. notify r ex s) st exs)) =
     set (calls st) \<union>
     {(ex, Inl (StatusOf r)) | ex. ex \<in> set exs \<and> ex < length (once_flags st) \<and> \<not> once_flags st ! ex}"
proof (induction exs arbitrary: st)
  case Nil
  then show ?case by simp
next
  case (Cons a exs)
  have "set (calls (foldl (\<lambda>s ex. notify r ex s) (notify r a st) exs)) =
     set (calls (notify r a st)) \<union>
     {(ex, Inl (StatusOf r)) | ex. ex \<in> set exs \<and> ex < length (once_flags (notify r a st))
        \<and> \<not> once_flags (notify r a st) ! ex}"
    by (rule Cons.IH)
  moreover have "ex < length (once_flags st) \<Longrightarrow>
      (\<not> once_flags (notify r a st) ! ex) = (ex \<noteq> a \<and> \<not> once_flags st ! ex)" for ex
    by (cases "ex = a") simp_all
  ultimately show ?case
    by (auto simp: calls_notify)
qed

lemma new_calls_notify_all:
  "\<exists>ks. calls (foldl (\<lambda>s ex. notify r ex s) st exs) = calls st @ ks \<and>
        snd ` set ks \<subseteq> {Inl (StatusOf r)} \<and> fst ` set ks \<subseteq> set exs"
proof (induction exs arbitrary: st)
  case Nil
  then show ?case by simp
next
  case (Cons a exs)
  obtain ks where ks: "calls (foldl (\<lambda>s ex. notify r ex s) (notify r a st) exs) =
      calls (notify r a st) @ ks" "snd ` set ks \<subseteq> {Inl (StatusOf r)}" "fst ` set ks \<subseteq> set exs"
    using Cons.IH[of "notify r a st"] by blast
  let ?k = "if a < length (once_flags st) \<and> \<not> once_flags st ! a then [(a, Inl (StatusOf r))] else []"
  have "calls (foldl (\<lambda>s ex. notify r ex s) st (a # exs)) = calls st @ (?k @ ks)"
    using ks(1) by (simp add: calls_notify)
  moreover have "snd ` set (?k @ ks) \<subseteq> {Inl (StatusOf r)}" using ks(2) by auto
  moreover have "fst ` set (?k @ ks) \<subseteq> set (a # exs)" using ks(3) by auto
  ultimately show ?case by blast
qed

lemma drop_new_calls:
  "calls st' = calls st @ ks \<Longrightarrow> drop (length (calls st)) (calls st') = ks"
  by simp


subsection \<open>Listener handles are owned by the queued waiters\<close>

lemma handle_inv_cong:
  "released st' = released st \<Longrightarrow> pending st' = pending st \<Longrightarrow> next_handle st' = next_handle st
     \<Longrightarrow> listeners st' = listeners st \<Longrightarrow> handle_inv st' = handle_inv st"
  by (simp add: handle_inv_def)

lemma once_in_upt:
  assumes "A + add_mset h M = mset [0..<n]"
  shows "h \<notin># M" and "h \<notin># A"
proof -
  have "distinct [0..<n]" by simp
  then have "count (mset [0..<n]) h = (if h \<in> set [0..<n] then 1 else 0)"
    unfolding distinct_count_atmost_1 by blast
  then have "count (mset [0..<n]) h \<le> 1" by simp
  then have "count A h + count M h + 1 \<le> 1" using assms[symmetric] by simp
  then show "h \<notin># M" and "h \<notin># A" by (simp_all add: not_in_iff)
qed

lemma mset_map_fst_filter:
  "mset (map fst (filter (\<lambda>l. P (fst l)) ls)) = filter_mset P (mset (map fst ls))"
  by (induction ls) simp_all

lemma filter_neq_add_mset: "h \<notin># M \<Longrightarrow> filter_mset (\<lambda>x. x \<noteq> h) (add_mset h M) = M"
  by (auto simp add: filter_mset_eq_conv)

lemma mset_map_partition:
  "mset (map f (filter P c)) + mset (map f (filter (\<lambda>p. \<not> P p) c)) = mset (map f c)"
  by (induction c) simp_all

lemma mset_map_pq_emplace: "mset (map f (pq_emplace p c)) = add_mset (f p) (mset (map f c))"
  by (simp only: mset_map mset_pq_emplace image_mset_add_mset)

lemma mset_map_pq_pop:
  "c \<noteq> [] \<Longrightarrow> add_mset (f (hd c)) (mset (map f (pq_pop c))) = mset (map f c)"
proof -
  assume "c \<noteq> []"
  then have "add_mset (hd c) (mset (pq_pop c)) = mset c" by (rule mset_pq_pop)
  then have "image_mset f (add_mset (hd c) (mset (pq_pop c))) = image_mset f (mset c)"
    by (rule arg_cong)
  then show ?thesis by simp
qed

lemma handle_inv_deliver: "handle_inv st \<Longrightarrow> handle_inv (deliver h m st)"
  using handle_inv_cong[of "deliver h m st" st] by simp

lemma handle_inv_invokeMethod:
  assumes "handle_inv st" shows "handle_inv (invokeMethod client now rf sr request st)"
proof (cases rf)
  case (Some e)
  have "handle_inv (invokeMethod client now (Some e) sr request st) = handle_inv st"
    by (rule handle_inv_cong) (simp_all add: invokeMethod_failed)
  then show ?thesis using Some assms by simp
next
  case None
  let ?st' = "invokeMethod client now None sr request st"
  have p: "pending ?st' = pq_emplace (armed_waiter client now st) (pending st)"
    and r: "released ?st' = released st"
    and n: "next_handle ?st' = Suc (next_handle st)"
    and l: "listeners ?st' = listeners st @
        [(next_handle st, attr_id (attributes request), length (once_flags st))]"
    by (simp_all add: invokeMethod_registered Let_def)
  have rl: "response_listener (armed_waiter client now st) = next_handle st"
    by (simp add: armed_waiter_def)
  show ?thesis using assms unfolding None handle_inv_def p r n l mset_map_pq_emplace rl
    by simp
qed

lemma handle_inv_doWork_iteration:
  assumes "handle_inv st" shows "handle_inv (doWork_iteration now st)"
proof (cases "pending st \<noteq> [] \<and> when_expire (hd (pending st)) \<le> now")
  case True
  let ?h = "response_listener (hd (pending st))"
  let ?M = "mset (map response_listener (pq_pop (pending st)))"
  let ?st' = "doWork_iteration now st"
  have p: "pending ?st' = pq_pop (pending st)"
    and r: "released ?st' = released st @ [?h]"
    and n: "next_handle ?st' = next_handle st"
    and l: "listeners ?st' = filter (\<lambda>l. fst l \<noteq> ?h) (listeners st)"
    using True by (simp_all add: doWork_iteration_due)
  have m: "add_mset ?h ?M = mset (map response_listener (pending st))"
    using True by (intro mset_map_pq_pop) simp
  have a: "mset (released st) + add_mset ?h ?M = mset [0..<next_handle st]"
    using assms m by (simp add: handle_inv_def)
  then have notin: "?h \<notin># ?M" by (rule once_in_upt)
  have "mset (map fst (filter (\<lambda>l. fst l \<noteq> ?h) (listeners st))) =
        filter_mset (\<lambda>x. x \<noteq> ?h) (mset (map fst (listeners st)))"
    by (rule mset_map_fst_filter [of "\<lambda>x. x \<noteq> ?h"])
  also have "\<dots> = filter_mset (\<lambda>x. x \<noteq> ?h) (add_mset ?h ?M)"
    using assms m by (simp add: handle_inv_def)
  also have "\<dots> = ?M" using notin by (rule filter_neq_add_mset)
  finally have b: "mset (map fst (listeners ?st')) = ?M" by (simp only: l)
  show ?thesis unfolding handle_inv_def p r n using a b by simp
next
  case False
  then show ?thesis using assms by (subst doWork_iteration_idle) auto
qed

lemma filter_by_image_inj:
  assumes "distinct (map f c)"
  shows "filter (\<lambda>x. x \<notin> f ` {p \<in> set c. P p}) (map f c) = map f (filter (\<lambda>p. \<not> P p) c)"
proof -
  have inj: "inj_on f (set c)" using assms by (simp add: distinct_map)
  have "filter (\<lambda>x. x \<notin> f ` {p \<in> set c. P p}) (map f c) =
        map f (filter (\<lambda>p. f p \<notin> f ` {p \<in> set c. P p}) c)"
    by (simp add: filter_map comp_def)
  also have "filter (\<lambda>p. f p \<notin> f ` {p \<in> set c. P p}) c = filter (\<lambda>p. \<not> P p) c"
  proof (rule filter_cong[OF refl])
    fix p assume "p \<in> set c"
    then show "(f p \<notin> f ` {p \<in> set c. P p}) = (\<not> P p)"
      using inj by (auto dest: inj_onD)
  qed
  finally show ?thesis .
qed

lemma handle_inv_distinct:
  assumes "handle_inv st"
  shows "distinct (map response_listener (pending st))" and "distinct (released st)"
    and "set (released st) \<inter> response_listener ` set (pending st) = {}"
proof -
  have "distinct (released st @ map response_listener (pending st))"
  proof -
    have "mset (released st @ map response_listener (pending st)) = mset [0..<next_handle st]"
      using assms by (simp add: handle_inv_def)
    then show ?thesis using mset_eq_imp_distinct_iff distinct_upt by blast
  qed
  then show "distinct (map response_listener (pending st))" and "distinct (released st)"
    and "set (released st) \<inter> response_listener ` set (pending st) = {}"
    by auto
qed

lemma handle_inv_scrub:
  assumes "handle_inv st" shows "handle_inv (ExpireWorker_scrub iid st)"
proof -
  let ?P = "\<lambda>p. iid = instance_id p"
  let ?st' = "ExpireWorker_scrub iid st"
  let ?c = "pending st"
  have p: "pending ?st' = filter (\<lambda>p. \<not> ?P p) ?c"
    and r: "released ?st' = released st @ map response_listener (filter ?P ?c)"
    and n: "next_handle ?st' = next_handle st"
    and l: "listeners ?st' =
        filter (\<lambda>l. fst l \<notin> set (map response_listener (filter ?P ?c))) (listeners st)"
    by (simp_all add: ExpireWorker_scrub_unfold)
  have part: "mset (map response_listener (filter ?P ?c)) +
        mset (map response_listener (filter (\<lambda>p. \<not> ?P p) ?c)) = mset (map response_listener ?c)"
    by (rule mset_map_partition)
  have a: "mset (released ?st') + mset (map response_listener (pending ?st')) =
        mset [0..<next_handle ?st']"
    using assms part unfolding p r n handle_inv_def by (simp add: add.assoc)
  have s: "set (map response_listener (filter ?P ?c)) = response_listener ` {p \<in> set ?c. ?P p}"
    by auto
  have "mset (map fst (listeners ?st')) =
        filter_mset (\<lambda>x. x \<notin> response_listener ` {p \<in> set ?c. ?P p}) (mset (map fst (listeners st)))"
    unfolding l s
    by (rule mset_map_fst_filter [of "\<lambda>x. x \<notin> response_listener ` {p \<in> set ?c. ?P p}"])
  also have "\<dots> = mset (filter (\<lambda>x. x \<notin> response_listener ` {p \<in> set ?c. ?P p})
        (map response_listener ?c))"
    using assms by (simp only: handle_inv_def mset_filter)
  also have "\<dots> = mset (map response_listener (filter (\<lambda>p. \<not> ?P p) ?c))"
    using handle_inv_distinct(1)[OF assms] by (simp only: filter_by_image_inj)
  finally show ?thesis using a unfolding handle_inv_def p by simp
qed

lemma handle_inv_dtor:
  assumes "handle_inv st" shows "handle_inv (ExpireWorker_dtor st)"
proof -
  let ?st' = "ExpireWorker_dtor st"
  let ?H = "map response_listener (pending st)"
  have p: "pending ?st' = []"
    and r: "released ?st' = released st @ ?H"
    and n: "next_handle ?st' = next_handle st"
    and l: "listeners ?st' = filter (\<lambda>l. fst l \<notin> set ?H) (listeners st)"
    by (simp_all add: ExpireWorker_dtor_def ScrubablePendingQueue_dtor_unfold)
  have "mset (map fst (listeners ?st')) = filter_mset (\<lambda>x. x \<notin> set ?H) (mset (map fst (listeners st)))"
    unfolding l by (rule mset_map_fst_filter [of "\<lambda>x. x \<notin> set ?H"])
  also have "\<dots> = filter_mset (\<lambda>x. x \<notin> set ?H) (mset ?H)"
    using assms by (simp only: handle_inv_def)
  also have "\<dots> = {#}" by (simp add: filter_mset_eq_conv)
  finally show ?thesis using assms unfolding handle_inv_def p r n by simp
qed

lemma handle_inv_step: "handle_inv st \<Longrightarrow> handle_inv (step a st)"
proof (cases a)
  case (Work nows)
  assume "handle_inv st"
  then have "handle_inv (doWork nows st)"
    by (rule doWork_invariant) (rule handle_inv_doWork_iteration)
  then show ?thesis using Work by simp
qed (simp_all add: handle_inv_invokeMethod handle_inv_deliver handle_inv_scrub handle_inv_dtor)

lemma handle_inv_run: "handle_inv (run acts init)"
  by (rule run_invariant) (simp_all add: handle_inv_step, simp add: handle_inv_def init_def)

subsection \<open>Closures called by the queue\<close>

lemma notify_inv_cong:
  "notified st' = notified st \<Longrightarrow> pending st' = pending st \<Longrightarrow>
   length (once_flags st') = length (once_flags st) \<Longrightarrow> notify_inv st' = notify_inv st"
  by (simp add: notify_inv_def)

lemma count_upt_le_1: "count (mset [0..<n]) h \<le> 1"
proof -
  have "distinct [0..<n]" by simp
  then have "count (mset [0..<n]) h = (if h \<in> set [0..<n] then 1 else 0)"
    unfolding distinct_count_atmost_1 by blast
  then show ?thesis by simp
qed

lemma once_in_sub_upt:
  assumes "A + add_mset h M \<subseteq># mset [0..<n]"
  shows "h \<notin># M" and "h \<notin># A"
proof -
  have "count (A + add_mset h M) h \<le> count (mset [0..<n]) h"
    using assms by (rule mset_subset_eq_count)
  then have "count A h + count M h + 1 \<le> 1" using count_upt_le_1[of n h] by simp
  then show "h \<notin># M" and "h \<notin># A" by (simp_all add: not_in_iff)
qed

lemma distinct_sub_upt:
  assumes "mset xs \<subseteq># mset [0..<n]" shows "distinct xs"
  unfolding distinct_count_atmost_1
proof
  fix a
  have le: "count (mset xs) a \<le> 1"
    using mset_subset_eq_count[OF assms, of a] count_upt_le_1[of n a] by simp
  show "count (mset xs) a = (if a \<in> set xs then 1 else 0)"
  proof (cases "a \<in> set xs")
    case True
    then have "0 < count (mset xs) a" by simp
    then have "count (mset xs) a = 1" using le by linarith
    then show ?thesis using True by simp
  next
    case False
    then show ?thesis by (simp add: count_eq_zero_iff)
  qed
qed

lemma notify_inv_distinct:
  assumes "notify_inv st"
  shows "distinct (map expire (pending st))" and "distinct (map fst (notified st))"
    and "fst ` set (notified st) \<inter> expire ` set (pending st) = {}"
    and "\<forall>p \<in> set (pending st). expire p < length (once_flags st)"
proof -
  have sub: "mset (map fst (notified st) @ map expire (pending st))
      \<subseteq># mset [0..<length (once_flags st)]"
    using assms by (simp add: notify_inv_def)
  then have "distinct (map fst (notified st) @ map expire (pending st))"
    by (rule distinct_sub_upt)
  then show "distinct (map expire (pending st))" and "distinct (map fst (notified st))"
    and "fst ` set (notified st) \<inter> expire ` set (pending st) = {}"
    by auto
  have "set (map fst (notified st) @ map expire (pending st)) \<subseteq> set [0..<length (once_flags st)]"
    using set_mset_mono[OF sub] by simp
  then show "\<forall>p \<in> set (pending st). expire p < length (once_flags st)" by auto
qed

lemma length_once_flags_deliver [simp]:
  "length (once_flags (deliver h m st)) = length (once_flags st)"
  by (simp add: deliver_def wrapper_def split: option.splits)

lemma notify_inv_deliver: "notify_inv st \<Longrightarrow> notify_inv (deliver h m st)"
  using notify_inv_cong[of "deliver h m st" st] by simp

lemma notify_inv_invokeMethod:
  assumes "notify_inv st" shows "notify_inv (invokeMethod client now rf sr request st)"
proof (cases rf)
  case (Some e)
  let ?st' = "invokeMethod client now (Some e) sr request st"
  have "notified ?st' = notified st" "pending ?st' = pending st"
    "length (once_flags ?st') = Suc (length (once_flags st))"
    by (simp_all add: invokeMethod_failed)
  moreover have "mset [0..<length (once_flags st)] \<subseteq># mset [0..<Suc (length (once_flags st))]"
    by simp
  ultimately show ?thesis using assms Some unfolding notify_inv_def
    by (auto intro: subset_mset.order_trans)
next
  case None
  let ?st' = "invokeMethod client now None sr request st"
  have n: "notified ?st' = notified st"
    and p: "pending ?st' = pq_emplace (armed_waiter client now st) (pending st)"
    and f: "length (once_flags ?st') = Suc (length (once_flags st))"
    by (simp_all add: invokeMethod_registered Let_def)
  have e: "expire (armed_waiter client now st) = length (once_flags st)"
    by (simp add: armed_waiter_def)
  show ?thesis using assms unfolding None notify_inv_def n p f mset_map_pq_emplace e
    by simp
qed

lemma notify_inv_doWork_iteration:
  assumes "notify_inv st" shows "notify_inv (doWork_iteration now st)"
proof (cases "pending st \<noteq> [] \<and> when_expire (hd (pending st)) \<le> now")
  case True
  let ?ex = "expire (hd (pending st))"
  let ?M = "mset (map expire (pq_pop (pending st)))"
  let ?st' = "doWork_iteration now st"
  have p: "pending ?st' = pq_pop (pending st)"
    and n: "notified ?st' = notified st @ [(?ex, expire_reason, ?ex \<in> set (map expire (pq_pop (pending st))))]"
    and f: "length (once_flags ?st') = length (once_flags st)"
    using True by (simp_all add: doWork_iteration_due queued_def)
  have m: "add_mset ?ex ?M = mset (map expire (pending st))"
    using True by (intro mset_map_pq_pop) simp
  have a: "mset (map fst (notified st)) + add_mset ?ex ?M \<subseteq># mset [0..<length (once_flags st)]"
    using assms m by (simp add: notify_inv_def)
  then have "?ex \<notin># ?M" by (rule once_in_sub_upt)
  then have q: "?ex \<notin> set (map expire (pq_pop (pending st)))" by simp
  show ?thesis unfolding notify_inv_def p n f using a assms q
    by (simp add: notify_inv_def)
next
  case False
  then show ?thesis using assms by (subst doWork_iteration_idle) auto
qed

lemma notify_inv_scrub:
  assumes "notify_inv st" shows "notify_inv (ExpireWorker_scrub iid st)"
proof -
  let ?P = "\<lambda>p. iid = instance_id p"
  let ?st' = "ExpireWorker_scrub iid st"
  let ?c = "pending st"
  let ?kept = "filter (\<lambda>p. \<not> ?P p) ?c"
  have p: "pending ?st' = ?kept"
    and n: "notified ?st' = notified st @
        map (\<lambda>ex. (ex, discard_reason, ex \<in> set (map expire ?kept))) (map expire (filter ?P ?c))"
    and f: "length (once_flags ?st') = length (once_flags st)"
    by (simp_all add: ExpireWorker_scrub_unfold notified_notify_all queued_def)
  have part: "mset (map expire (filter ?P ?c)) + mset (map expire ?kept) = mset (map expire ?c)"
    by (rule mset_map_partition)
  have a: "mset (map fst (notified ?st')) + mset (map expire (pending ?st'))
      \<subseteq># mset [0..<length (once_flags ?st')]"
    using assms part unfolding p n f notify_inv_def by (simp add: comp_def add.assoc)
  have d: "distinct (map expire ?c)" using assms by (rule notify_inv_distinct)
  then have inj: "inj_on expire (set ?c)" by (simp add: distinct_map)
  have q: "ex \<in> set (map expire (filter ?P ?c)) \<Longrightarrow> ex \<notin> set (map expire ?kept)" for ex
    using inj by (auto dest: inj_onD)
  have "\<forall>n \<in> set (notified ?st').
          (if snd (snd n) then fst (snd n) = shutdown_reason
           else fst (snd n) = expire_reason \<or> fst (snd n) = discard_reason)"
    unfolding n using assms q by (auto simp: notify_inv_def)
  then show ?thesis using a by (simp add: notify_inv_def)
qed

lemma notify_inv_dtor:
  assumes "notify_inv st" shows "notify_inv (ExpireWorker_dtor st)"
proof -
  let ?st' = "ExpireWorker_dtor st"
  let ?c = "pending st"
  have p: "pending ?st' = []"
    and n: "notified ?st' = notified st @
        map (\<lambda>ex. (ex, shutdown_reason, ex \<in> set (map expire ?c))) (map expire ?c)"
    and f: "length (once_flags ?st') = length (once_flags st)"
    by (simp_all add: ExpireWorker_dtor_def ScrubablePendingQueue_dtor_unfold notified_notify_all
        queued_def)
  have a: "mset (map fst (notified ?st')) + mset (map expire (pending ?st'))
      \<subseteq># mset [0..<length (once_flags ?st')]"
    using assms unfolding p n f notify_inv_def by (simp add: comp_def)
  have "\<forall>n \<in> set (notified ?st').
          (if snd (snd n) then fst (snd n) = shutdown_reason
           else fst (snd n) = expire_reason \<or> fst (snd n) = discard_reason)"
    unfolding n using assms by (auto simp: notify_inv_def)
  then show ?thesis using a by (simp add: notify_inv_def)
qed

lemma notify_inv_step: "notify_inv st \<Longrightarrow> notify_inv (step a st)"
proof (cases a)
  case (Work nows)
  assume "notify_inv st"
  then have "notify_inv (doWork nows st)"
    by (rule doWork_invariant) (rule notify_inv_doWork_iteration)
  then show ?thesis using Work by simp
qed (simp_all add: notify_inv_invokeMethod notify_inv_deliver notify_inv_scrub notify_inv_dtor)

lemma notify_inv_run: "notify_inv (run acts init)"
  by (rule run_invariant) (simp_all add: notify_inv_step, simp add: notify_inv_def init_def)

lemma guard_inv_count:
  "guard_inv st \<Longrightarrow> i < length (once_flags st) \<Longrightarrow>
     count_calls i st = (if once_flags st ! i then 1 else 0)"
  by (simp add: guard_inv_def)

section \<open>Deadline order as long as nothing is scrubbed\<close>

text \<open>Pushing and popping keep the heap property, the front of a heap is an earliest
  waiter, and so the worker notifies in deadline order from any state that was reached
  without a scoped cancellation.\<close>

lemma div2_le_iff: "s \<le> (m::nat) div 2 \<longleftrightarrow> 2 * s \<le> m"
  by (simp add: less_eq_div_iff_mult_less_eq mult.commute)

lemma div2_less_iff: "s < (m::nat) div 2 \<longleftrightarrow> 2 * s + 2 \<le> m"
  using div2_le_iff[of "Suc s" m] by (simp add: Suc_le_eq)

lemma div2_iff: "(m::nat) div 2 = s \<longleftrightarrow> 2 * s \<le> m \<and> m < 2 * s + 2"
proof -
  have "(m div 2 = s) = (s \<le> m div 2 \<and> \<not> s < m div 2)" by auto
  then show ?thesis unfolding div2_le_iff div2_less_iff by auto
qed

lemma heap_children: "0 < i \<Longrightarrow> (i - 1) div 2 = s \<Longrightarrow> i = 2 * (s + 1) \<or> i = 2 * (s + 1) - (1::nat)"
  unfolding div2_iff by auto

lemma heap_last_child:
  "even n \<Longrightarrow> 0 < n \<Longrightarrow> s = (n - 2) div 2 \<Longrightarrow> 2 * (s + 1) - 1 = n - (1::nat)"
  by (auto elim!: evenE)

lemma heap_only_child:
  "even n \<Longrightarrow> s = (n - 2) div 2 \<Longrightarrow> 0 < i \<Longrightarrow> i < n \<Longrightarrow> (i - 1) div 2 = s \<Longrightarrow>
     i = 2 * (s + 1) - (1::nat)"
  unfolding div2_iff by (auto elim!: evenE)

lemma heap_no_child:
  "(n - 1) div 2 \<le> s \<Longrightarrow> \<not> (even n \<and> s = (n - 2) div 2) \<Longrightarrow> 0 < i \<Longrightarrow>
     (i - 1) div 2 = s \<Longrightarrow> n \<le> (i::nat)"
proof (cases "even n")
  case True
  assume a: "(n - 1) div 2 \<le> s" "\<not> (even n \<and> s = (n - 2) div 2)" "0 < i" "(i - 1) div 2 = s"
  from True obtain k where k: "n = 2 * k" by (elim evenE)
  have "(n - 2) div 2 = k - 1" using k by simp
  moreover have "(n - 1) div 2 = k - 1" using k by (cases k) simp_all
  ultimately have "k \<le> s" using a(1,2) True by linarith
  then show ?thesis using a(3,4) k unfolding div2_iff by auto
next
  case False
  assume a: "(n - 1) div 2 \<le> s" "0 < i" "(i - 1) div 2 = s"
  from False obtain k where k: "n = 2 * k + 1" by (elim oddE)
  then have "k \<le> s" using a(1) by simp
  then show ?thesis using a(2,3) k unfolding div2_iff by auto
qed

lemma heap_child_bounds:
  "s < (n - 1) div 2 \<Longrightarrow> 2 * (s + 1) < (n::nat)"
  unfolding div2_less_iff by auto

lemma heap_onD:
  "heap_on n c \<Longrightarrow> 0 < i \<Longrightarrow> i < n \<Longrightarrow>
     when_expire (c ! ((i - 1) div 2)) \<le> when_expire (c ! i)"
  unfolding heap_on_def gt_def by (meson not_less)

lemma heap_onI:
  "(\<And>i. 0 < i \<Longrightarrow> i < n \<Longrightarrow> when_expire (c ! ((i - 1) div 2)) \<le> when_expire (c ! i))
     \<Longrightarrow> heap_on n c"
  unfolding heap_on_def gt_def by (meson not_less)

lemma heap_on_push_heap_loop:
  assumes "hole < n" "n \<le> length c"
    and "\<forall>i. 0 < i \<and> i < n \<and> i \<noteq> hole \<longrightarrow> when_expire (c ! ((i - 1) div 2)) \<le> when_expire (c ! i)"
    and "\<forall>i. 0 < i \<and> i < n \<and> (i - 1) div 2 = hole \<longrightarrow> when_expire v \<le> when_expire (c ! i)"
    and "0 < hole \<longrightarrow> (\<forall>i. 0 < i \<and> i < n \<and> (i - 1) div 2 = hole \<longrightarrow>
            when_expire (c ! ((hole - 1) div 2)) \<le> when_expire (c ! i))"
  shows "heap_on n (push_heap_loop c hole 0 v)"
  using assms
proof (induction c hole "0::nat" v rule: push_heap_loop.induct)
  case (1 c hole v)
  let ?p = "(hole - 1) div 2"
  show ?case
  proof (cases "hole > 0 \<and> gt (c ! ?p) v")
    case True
    then have ph: "?p < hole" and vp: "when_expire v < when_expire (c ! ?p)"
      by (auto simp: gt_def)
    let ?c' = "c[hole := c ! ?p]"
    have eq: "push_heap_loop c hole 0 v = push_heap_loop ?c' ?p 0 v"
      using True by (subst push_heap_loop.simps) (simp add: Let_def)
    have nth: "c[hole := x] ! i = (if i = hole then x else c ! i)" for i x
      using "1.prems"(1,2) by (simp add: nth_list_update)
    have A1: "when_expire (?c' ! ((i - 1) div 2)) \<le> when_expire (?c' ! i)"
      if i: "0 < i" "i < n" "i \<noteq> ?p" for i
    proof (cases "i = hole")
      case True
      then show ?thesis using ph by (simp add: nth)
    next
      case False
      show ?thesis
      proof (cases "(i - 1) div 2 = hole")
        case True
        then show ?thesis using False i "1.prems"(5) \<open>hole > 0 \<and> gt (c ! ?p) v\<close>
          by (simp add: nth)
      next
        case False
        then show ?thesis using \<open>i \<noteq> hole\<close> i "1.prems"(3) by (simp add: nth)
      qed
    qed
    have A2: "when_expire v \<le> when_expire (?c' ! i)"
      if i: "0 < i" "i < n" "(i - 1) div 2 = ?p" for i
    proof (cases "i = hole")
      case True
      then show ?thesis using vp by (simp add: nth)
    next
      case False
      then have "when_expire (c ! ?p) \<le> when_expire (c ! i)"
        using i "1.prems"(3) by metis
      then show ?thesis using vp False by (simp add: nth)
    qed
    have A3: "when_expire (?c' ! ((?p - 1) div 2)) \<le> when_expire (?c' ! i)"
      if i: "0 < ?p" "0 < i" "i < n" "(i - 1) div 2 = ?p" for i
    proof -
      have pp: "(?p - 1) div 2 \<noteq> hole" using ph by auto
      have pn: "?p < n" using ph "1.prems"(1) by simp
      have a: "when_expire (c ! ((?p - 1) div 2)) \<le> when_expire (c ! ?p)"
        using "1.prems"(3) i(1) pn ph by (metis nat_neq_iff)
      show ?thesis
      proof (cases "i = hole")
        case True
        then show ?thesis using a pp by (simp add: nth)
      next
        case False
        then have "when_expire (c ! ?p) \<le> when_expire (c ! i)"
          using i "1.prems"(3) by metis
        then show ?thesis using a pp False by (simp add: nth)
      qed
    qed
    have "heap_on n (push_heap_loop ?c' ?p 0 v)"
    proof (rule "1.hyps")
      show "?p = (hole - 1) div 2" by simp
      show "0 < hole \<and> gt (c ! ?p) v" by (rule True)
      show "?p < n" using ph "1.prems"(1) by simp
      show "n \<le> length ?c'" using "1.prems"(2) by simp
      show "\<forall>i. 0 < i \<and> i < n \<and> i \<noteq> ?p \<longrightarrow>
          when_expire (?c' ! ((i - 1) div 2)) \<le> when_expire (?c' ! i)"
        using A1 by blast
      show "\<forall>i. 0 < i \<and> i < n \<and> (i - 1) div 2 = ?p \<longrightarrow> when_expire v \<le> when_expire (?c' ! i)"
        using A2 by blast
      show "0 < ?p \<longrightarrow> (\<forall>i. 0 < i \<and> i < n \<and> (i - 1) div 2 = ?p \<longrightarrow>
          when_expire (?c' ! ((?p - 1) div 2)) \<le> when_expire (?c' ! i))"
        using A3 by blast
    qed
    then show ?thesis by (simp only: eq)
  next
    case False
    then have eq: "push_heap_loop c hole 0 v = c[hole := v]"
      by (subst push_heap_loop.simps) (auto simp add: Let_def)
    have nth: "c[hole := v] ! i = (if i = hole then v else c ! i)" for i
      using "1.prems"(1,2) by (simp add: nth_list_update)
    have "\<not> gt (c[hole := v] ! ((i - 1) div 2)) (c[hole := v] ! i)" if i: "0 < i" "i < n" for i
    proof (cases "i = hole")
      case True
      then have "(i - 1) div 2 \<noteq> hole" using i by auto
      then show ?thesis using True False i by (simp add: nth gt_def)
    next
      case False
      then show ?thesis using i "1.prems"(3,4) by (auto simp add: nth gt_def)
    qed
    then show ?thesis unfolding eq heap_on_def by blast
  qed
qed

lemma heap_on_move_child_up:
  assumes h: "heap_on n c" and n: "n \<le> length c" and k: "k < n" "(k - 1) div 2 = s" "0 < k"
    and m: "\<forall>i. 0 < i \<and> i < n \<and> (i - 1) div 2 = s \<longrightarrow> when_expire (c ! k) \<le> when_expire (c ! i)"
  shows "heap_on n (c[s := c ! k])"
proof (rule heap_onI)
  fix i assume i: "0 < i" "i < n"
  have sk: "s < k" using k by auto
  then have sl: "s < length c" using k n by simp
  have nth: "c[s := x] ! j = (if j = s then x else c ! j)" for j x
    using sl by (simp add: nth_list_update)
  have le: "when_expire (c ! ((j - 1) div 2)) \<le> when_expire (c ! j)" if "0 < j" "j < n" for j
    using h that by (rule heap_onD)
  show "when_expire (c[s := c ! k] ! ((i - 1) div 2)) \<le> when_expire (c[s := c ! k] ! i)"
  proof (cases "i = s")
    case True
    then have ps: "(i - 1) div 2 \<noteq> s" using i by auto
    have "when_expire (c ! ((s - 1) div 2)) \<le> when_expire (c ! s)" using le[of s] i True by simp
    moreover have "when_expire (c ! s) \<le> when_expire (c ! k)" using le[of k] k by simp
    ultimately show ?thesis using True ps by (simp add: nth)
  next
    case False
    show ?thesis
    proof (cases "(i - 1) div 2 = s")
      case True
      then have "when_expire (c ! k) \<le> when_expire (c ! i)" using m i by blast
      then show ?thesis using False True by (simp add: nth)
    next
      case False
      then show ?thesis using \<open>i \<noteq> s\<close> le[of i] i by (simp add: nth)
    qed
  qed
qed

lemma heap_on_adjust_heap_loop:
  "adjust_heap_loop c s n = (c1, s1) \<Longrightarrow> heap_on n c \<Longrightarrow> s < n \<Longrightarrow> n \<le> length c \<Longrightarrow>
     heap_on n c1 \<and> (n - 1) div 2 \<le> s1"
proof (induction c s n arbitrary: c1 s1 rule: adjust_heap_loop.induct)
  case (1 c s n)
  show ?case
  proof (cases "s < (n - 1) div 2")
    case True
    define sc where "sc = 2 * (s + 1)"
    define sc' where "sc' = (if gt (c ! sc) (c ! (sc - 1)) then sc - 1 else sc)"
    have "sc < n" using heap_child_bounds[OF True] by (simp add: sc_def)
    then have b: "sc < n" "sc' < n" "s < sc'" "(sc' - 1) div 2 = s" "0 < sc'"
      by (auto simp: sc_def sc'_def)
    have eq: "adjust_heap_loop (c[s := c ! sc']) sc' n = (c1, s1)"
      using 1(2) True
      by (subst (asm) adjust_heap_loop.simps) (auto simp add: Let_def sc_def sc'_def split: if_splits)
    have m: "\<forall>i. 0 < i \<and> i < n \<and> (i - 1) div 2 = s \<longrightarrow> when_expire (c ! sc') \<le> when_expire (c ! i)"
    proof (intro allI impI)
      fix i assume i: "0 < i \<and> i < n \<and> (i - 1) div 2 = s"
      then have "i = sc \<or> i = sc - 1" unfolding sc_def using heap_children[of i s] by blast
      then show "when_expire (c ! sc') \<le> when_expire (c ! i)"
        by (auto simp: sc'_def gt_def)
    qed
    have "heap_on n (c[s := c ! sc'])"
      using 1(3) 1(5) b(2) b(4) b(5) m by (rule heap_on_move_child_up)
    then show ?thesis
      using "1.IH"[OF True sc_def sc'_def eq] b 1(5) by simp
  next
    case False
    then have "c1 = c" "s1 = s"
      using 1(2) by (subst (asm) adjust_heap_loop.simps, simp)+
    then show ?thesis using 1(3) False by simp
  qed
qed

lemma heap_on_adjust_heap:
  assumes "heap_on n c" "0 < n" "n \<le> length c"
  shows "heap_on n (adjust_heap c 0 n v)"
proof -
  obtain c1 s1 where l: "adjust_heap_loop c 0 n = (c1, s1)" by force
  note f = adjust_heap_loop_facts[OF l assms(2) assms(3), of v]
  note g = heap_on_adjust_heap_loop[OF l assms(1) assms(2) assms(3)]
  define b where "b \<longleftrightarrow> n mod 2 = 0 \<and> s1 = (n - 2) div 2"
  define c2 where "c2 = (if b then c1[s1 := c1 ! (2 * (s1 + 1) - 1)] else c1)"
  define h2 where "h2 = (if b then 2 * (s1 + 1) - 1 else s1)"
  have r: "adjust_heap c 0 n v = push_heap_loop c2 h2 0 v"
    by (simp add: adjust_heap_def l c2_def h2_def b_def)
  have len1: "n \<le> length c1" using f assms(3) by simp
  have h2n: "h2 < n"
  proof (cases b)
    case True
    then have "even n" "s1 = (n - 2) div 2" by (simp_all add: b_def even_iff_mod_2_eq_zero)
    then have "2 * (s1 + 1) - 1 = n - 1" using assms(2) by (intro heap_last_child)
    then show ?thesis using True assms(2) by (simp add: h2_def)
  next
    case False
    then show ?thesis using f by (simp add: h2_def)
  qed
  have leaf: "\<not> (0 < i \<and> i < n \<and> (i - 1) div 2 = h2)" for i
  proof (cases b)
    case True
    then have "even n" "s1 = (n - 2) div 2" by (simp_all add: b_def even_iff_mod_2_eq_zero)
    then have "2 * (s1 + 1) - 1 = n - 1" using assms(2) by (intro heap_last_child)
    then have "h2 = n - 1" using True by (simp add: h2_def)
    then show ?thesis using assms(2) unfolding div2_iff by auto
  next
    case False
    then have "h2 = s1" by (simp add: h2_def)
    moreover have "\<not> (even n \<and> s1 = (n - 2) div 2)"
      using False by (simp add: b_def even_iff_mod_2_eq_zero)
    ultimately show ?thesis using g heap_no_child[of n s1 i] by auto
  qed
  have heap2: "heap_on n c2"
  proof (cases b)
    case True
    then have e: "even n" "s1 = (n - 2) div 2" by (simp_all add: b_def even_iff_mod_2_eq_zero)
    let ?k = "2 * (s1 + 1) - 1"
    have "?k = n - 1" using e assms(2) by (intro heap_last_child)
    then have "?k < n" using assms(2) by simp
    moreover have "(?k - 1) div 2 = s1" "0 < ?k" by simp_all
    ultimately have k: "?k < n" "(?k - 1) div 2 = s1" "0 < ?k" by blast+
    have "\<forall>i. 0 < i \<and> i < n \<and> (i - 1) div 2 = s1 \<longrightarrow> when_expire (c1 ! ?k) \<le> when_expire (c1 ! i)"
    proof (intro allI impI)
      fix i assume "0 < i \<and> i < n \<and> (i - 1) div 2 = s1"
      then have "i = ?k" using e heap_only_child[of n s1 i] by blast
      then show "when_expire (c1 ! ?k) \<le> when_expire (c1 ! i)" by simp
    qed
    then have "heap_on n (c1[s1 := c1 ! ?k])"
      using g len1 k by (intro heap_on_move_child_up) simp_all
    then show ?thesis using True by (simp add: c2_def)
  next
    case False
    then show ?thesis using g by (simp add: c2_def)
  qed
  have "heap_on n (push_heap_loop c2 h2 0 v)"
  proof (rule heap_on_push_heap_loop)
    show "h2 < n" by (rule h2n)
    show "n \<le> length c2" using len1 by (simp add: c2_def)
    show "\<forall>i. 0 < i \<and> i < n \<and> i \<noteq> h2 \<longrightarrow>
        when_expire (c2 ! ((i - 1) div 2)) \<le> when_expire (c2 ! i)"
      using heap_onD[OF heap2] by blast
    show "\<forall>i. 0 < i \<and> i < n \<and> (i - 1) div 2 = h2 \<longrightarrow> when_expire v \<le> when_expire (c2 ! i)"
      using leaf by blast
    show "0 < h2 \<longrightarrow> (\<forall>i. 0 < i \<and> i < n \<and> (i - 1) div 2 = h2 \<longrightarrow>
        when_expire (c2 ! ((h2 - 1) div 2)) \<le> when_expire (c2 ! i))"
      using leaf by blast
  qed
  then show ?thesis by (simp only: r)
qed

lemma is_heap_pq_emplace: "is_heap c \<Longrightarrow> is_heap (pq_emplace p c)"
proof -
  assume h: "is_heap c"
  let ?c = "c @ [p]"
  have "heap_on (length ?c) (push_heap_loop ?c (length ?c - 1) 0 (last ?c))"
  proof (rule heap_on_push_heap_loop)
    show "length ?c - 1 < length ?c" by simp
    show "length ?c \<le> length ?c" by simp
    show "\<forall>i. 0 < i \<and> i < length ?c \<and> i \<noteq> length ?c - 1 \<longrightarrow>
        when_expire (?c ! ((i - 1) div 2)) \<le> when_expire (?c ! i)"
    proof (intro allI impI)
      fix i assume i: "0 < i \<and> i < length ?c \<and> i \<noteq> length ?c - 1"
      then have "i < length c" "(i - 1) div 2 < length c" by auto
      moreover have "when_expire (c ! ((i - 1) div 2)) \<le> when_expire (c ! i)"
        using h i \<open>i < length c\<close> unfolding is_heap_def by (intro heap_onD) simp_all
      ultimately show "when_expire (?c ! ((i - 1) div 2)) \<le> when_expire (?c ! i)"
        by (simp add: nth_append)
    qed
    show "\<forall>i. 0 < i \<and> i < length ?c \<and> (i - 1) div 2 = length ?c - 1 \<longrightarrow>
        when_expire (last ?c) \<le> when_expire (?c ! i)"
      by auto
    show "0 < length ?c - 1 \<longrightarrow> (\<forall>i. 0 < i \<and> i < length ?c \<and> (i - 1) div 2 = length ?c - 1 \<longrightarrow>
        when_expire (?c ! ((length ?c - 1 - 1) div 2)) \<le> when_expire (?c ! i))"
      by auto
  qed
  then show ?thesis by (simp add: pq_emplace_def push_heap_def is_heap_def)
qed

lemma is_heap_pq_pop: "is_heap c \<Longrightarrow> is_heap (pq_pop c)"
proof (cases "length c > 1")
  case True
  assume h: "is_heap c"
  let ?l = "length c - 1"
  let ?c' = "c[?l := c ! 0]"
  let ?r = "adjust_heap ?c' 0 ?l (c ! ?l)"
  have "heap_on ?l ?c'"
    using h by (auto simp: is_heap_def heap_on_def)
  then have "heap_on ?l ?r" using True by (intro heap_on_adjust_heap) simp_all
  moreover have len: "length ?r = length c" using True by (simp add: adjust_heap_facts)
  ultimately have "heap_on ?l (butlast ?r)"
    by (auto simp: heap_on_def nth_butlast)
  then show ?thesis using True len by (simp add: pq_pop_def pop_heap_def Let_def is_heap_def)
next
  case False
  then have "butlast c = []" by (cases c) auto
  then show ?thesis using False by (simp add: pq_pop_def pop_heap_def is_heap_def heap_on_def)
qed

lemma heap_root_least:
  assumes "is_heap c" "i < length c"
  shows "when_expire (c ! 0) \<le> when_expire (c ! i)"
  using assms(2)
proof (induction i rule: less_induct)
  case (less i)
  show ?case
  proof (cases "i = 0")
    case True
    then show ?thesis by simp
  next
    case False
    then have p: "(i - 1) div 2 < i" by auto
    then have "when_expire (c ! 0) \<le> when_expire (c ! ((i - 1) div 2))"
      using less by simp
    moreover have "when_expire (c ! ((i - 1) div 2)) \<le> when_expire (c ! i)"
      using assms(1) False less.prems unfolding is_heap_def by (intro heap_onD) simp_all
    ultimately show ?thesis by simp
  qed
qed

lemma top_is_earliest:
  assumes "is_heap c" "p \<in> set c"
  shows "when_expire (top c) \<le> when_expire p"
proof -
  obtain i where "i < length c" "c ! i = p" using assms(2) by (auto simp: in_set_conv_nth)
  moreover have "top c = c ! 0" using assms(2) by (cases c) (auto simp: top_def)
  ultimately show ?thesis using heap_root_least[OF assms(1)] by auto
qed

lemma is_heap_Nil [simp]: "is_heap []"
  by (simp add: is_heap_def heap_on_def)

lemma set_pq_pop_subset: "set (pq_pop c) \<subseteq> set c"
proof (cases "c = []")
  case True
  then show ?thesis by (simp add: pq_pop_def pop_heap_def)
next
  case False
  then show ?thesis using set_pq_pop[of c] by auto
qed

lemma set_expired_by: "set (expired_by nows c) \<subseteq> set c"
proof (induction nows arbitrary: c)
  case Nil
  then show ?case by simp
next
  case (Cons now nows)
  have "top c \<in> set c" if "c \<noteq> []" using that by (cases c) (simp_all add: top_def)
  moreover have "set (expired_by nows (pq_pop c)) \<subseteq> set c"
    using Cons[of "pq_pop c"] set_pq_pop_subset[of c] by blast
  ultimately show ?case using Cons[of c] by auto
qed

lemma sorted_expired_by:
  "is_heap c \<Longrightarrow> sorted (map when_expire (expired_by nows c))"
proof (induction nows arbitrary: c)
  case Nil
  then show ?case by simp
next
  case (Cons now nows)
  show ?case
  proof (cases "c \<noteq> [] \<and> when_expire (top c) \<le> now")
    case True
    have "when_expire (top c) \<le> when_expire p" if "p \<in> set (expired_by nows (pq_pop c))" for p
    proof -
      have "p \<in> set c" using that set_expired_by[of nows "pq_pop c"] set_pq_pop_subset[of c] by blast
      then show ?thesis using Cons.prems by (intro top_is_earliest)
    qed
    moreover have "sorted (map when_expire (expired_by nows (pq_pop c)))"
      using Cons.prems by (intro Cons.IH is_heap_pq_pop)
    ultimately show ?thesis using True by auto
  next
    case False
    then show ?thesis using Cons by auto
  qed
qed

lemma doWork_notifies_expired_by:
  "\<not> stop st \<Longrightarrow>
     map fst (notified (doWork nows st)) =
       map fst (notified st) @ map expire (expired_by nows (pending st))"
proof (induction nows arbitrary: st)
  case Nil
  then show ?case by simp
next
  case (Cons now nows)
  show ?case
  proof (cases "pending st \<noteq> [] \<and> when_expire (hd (pending st)) \<le> now")
    case True
    let ?st' = "doWork_iteration now st"
    have s: "\<not> stop ?st'" and p: "pending ?st' = pq_pop (pending st)"
      and n: "map fst (notified ?st') = map fst (notified st) @ [expire (top (pending st))]"
      using True Cons.prems by (simp_all add: doWork_iteration_due top_def)
    show ?thesis using Cons.IH[OF s] True Cons.prems by (simp add: p n top_def)
  next
    case False
    then have "doWork_iteration now st = st" by (intro doWork_iteration_idle) auto
    then show ?thesis using Cons False by (auto simp: top_def)
  qed
qed

lemma is_heap_doWork_iteration:
  "is_heap (pending st) \<Longrightarrow> is_heap (pending (doWork_iteration now st))"
proof (cases "pending st \<noteq> [] \<and> when_expire (hd (pending st)) \<le> now")
  case True
  assume "is_heap (pending st)"
  then show ?thesis using True by (simp add: doWork_iteration_due is_heap_pq_pop)
next
  case False
  assume "is_heap (pending st)"
  moreover have "doWork_iteration now st = st" using False by (intro doWork_iteration_idle) auto
  ultimately show ?thesis by simp
qed

lemma is_heap_step:
  assumes "is_heap (pending st)" "\<forall>iid. a \<noteq> Discard iid"
  shows "is_heap (pending (step a st))"
proof (cases a)
  case (Invoke client now rf sr request)
  then show ?thesis using assms(1)
    by (cases rf) (simp_all add: invokeMethod_failed invokeMethod_registered Let_def is_heap_pq_emplace)
next
  case (Deliver h m)
  then show ?thesis using assms(1) by simp
next
  case (Work nows)
  have "is_heap (pending (doWork nows st))"
    using assms(1)
    by (rule doWork_invariant[where P = "\<lambda>s. is_heap (pending s)"]) (rule is_heap_doWork_iteration)
  then show ?thesis using Work by simp
next
  case (Discard iid)
  then show ?thesis using assms(2) by simp
next
  case Shutdown
  then show ?thesis by simp
qed

lemma is_heap_run_without_scrub:
  "\<forall>iid. Discard iid \<notin> set acts \<Longrightarrow> is_heap (pending (run acts init))"
proof (induction acts rule: rev_induct)
  case Nil
  then show ?case by (simp add: init_def)
next
  case (snoc a acts)
  then have "is_heap (pending (run acts init))" "\<forall>iid. a \<noteq> Discard iid" by auto
  then show ?case by (simp add: is_heap_step)
qed

lemma deadline_order_without_scrub:
  assumes "\<forall>iid. Discard iid \<notin> set acts" "\<not> stop (run acts init)"
  shows "map fst (notified (doWork nows (run acts init))) =
           map fst (notified (run acts init)) @
           map expire (expired_by nows (pending (run acts init)))"
    and "sorted (map when_expire (expired_by nows (pending (run acts init))))"
  using assms by (simp_all add: doWork_notifies_expired_by sorted_expired_by is_heap_run_without_scrub)

lemma deadline_order_example:
  "map (\<lambda>p. (expire p, when_expire p))
     (expired_by [250, 300, 300, 400]
        (pending (run [Invoke (sample_client 100 0) 0 None ok_status (sample_request 0),
                       Invoke (sample_client 300 1) 0 None ok_status (sample_request 1),
                       Invoke (sample_client 200 2) 0 None ok_status (sample_request 2),
                       Invoke (sample_client 400 3) 0 None ok_status (sample_request 3)] init)))
   = [(0, 100), (2, 200), (1, 300), (3, 400)]"
  by code_simp

section \<open>The call that \<open>invokeMethod\<close> makes after a failed send\<close>

lemma new_calls_notify_all_exact:
  "\<exists>ks. calls (foldl (\<lambda>s ex. notify r ex s) st exs) = calls st @ ks \<and>
        set ks = {(ex, Inl (StatusOf r)) | ex.
                    ex \<in> set exs \<and> ex < length (once_flags st) \<and> \<not> once_flags st ! ex}"
proof (induction exs arbitrary: st)
  case Nil
  then show ?case by simp
next
  case (Cons a exs)
  let ?st1 = "notify r a st"
  obtain ks where ks: "calls (foldl (\<lambda>s ex. notify r ex s) ?st1 exs) = calls ?st1 @ ks"
      "set ks = {(ex, Inl (StatusOf r)) | ex.
                    ex \<in> set exs \<and> ex < length (once_flags ?st1) \<and> \<not> once_flags ?st1 ! ex}"
    using Cons.IH[of ?st1] by blast
  let ?k = "if a < length (once_flags st) \<and> \<not> once_flags st ! a then [(a, Inl (StatusOf r))] else []"
  have fl: "ex < length (once_flags st) \<Longrightarrow>
      (\<not> once_flags ?st1 ! ex) = (ex \<noteq> a \<and> \<not> once_flags st ! ex)" for ex
    by (cases "ex = a") simp_all
  have "set ks = {(ex, Inl (StatusOf r)) | ex.
                    ex \<in> set exs \<and> ex \<noteq> a \<and> ex < length (once_flags st) \<and> \<not> once_flags st ! ex}"
    unfolding ks(2) using fl by auto
  then have "set (?k @ ks) = {(ex, Inl (StatusOf r)) | ex.
        ex \<in> set (a # exs) \<and> ex < length (once_flags st) \<and> \<not> once_flags st ! ex}"
    by auto
  moreover have "calls (foldl (\<lambda>s ex. notify r ex s) st (a # exs)) = calls st @ (?k @ ks)"
    using ks(1) by (simp add: calls_notify)
  ultimately show ?case by blast
qed

lemma early_inv_mono:
  assumes "early_inv st" "early_expire st' = early_expire st"
    and "length (once_flags st) \<le> length (once_flags st')"
    and "set (calls st) \<subseteq> set (calls st')"
    and "\<And>i. queued i st \<or> i \<in> fst ` set (notified st) \<Longrightarrow>
               queued i st' \<or> i \<in> fst ` set (notified st')"
  shows "early_inv st'"
  unfolding early_inv_def
proof (intro conjI ballI)
  show "distinct (map fst (early_expire st'))" using assms(1,2) by (simp add: early_inv_def)
next
  fix e assume "e \<in> set (early_expire st')"
  then have e: "e \<in> set (early_expire st)" using assms(2) by simp
  then have a: "code (snd e) \<noteq> OK" "fst e < length (once_flags st)"
      "(fst e, Inl (StatusOf (snd e))) \<in> set (calls st)"
      "queued (fst e) st \<or> fst e \<in> fst ` set (notified st)"
    using assms(1) by (auto simp: early_inv_def)
  show "code (snd e) \<noteq> OK" by (rule a)
  show "fst e < length (once_flags st')" using a(2) assms(3) by simp
  show "(fst e, Inl (StatusOf (snd e))) \<in> set (calls st')" using a(3) assms(4) by blast
  show "queued (fst e) st' \<or> fst e \<in> fst ` set (notified st')" using a(4) by (rule assms(5))
qed

lemma early_inv_deliver: "early_inv st \<Longrightarrow> early_inv (deliver h m st)"
proof (rule early_inv_mono)
  show "set (calls st) \<subseteq> set (calls (deliver h m st))"
    by (auto simp: deliver_def wrapper_def calls_call_once split: option.splits)
qed (simp_all add: queued_def)

lemma early_inv_alloc:
  assumes "early_inv st"
  shows "early_inv (st\<lparr>once_flags := once_flags st @ [False]\<rparr>)"
  using assms by (rule early_inv_mono) (simp_all add: queued_def)

lemma early_inv_invokeMethod:
  assumes "early_inv st" shows "early_inv (invokeMethod client now rf sr request st)"
proof (cases rf)
  case (Some e)
  show ?thesis unfolding Some using assms
    by (rule early_inv_mono) (auto simp add: invokeMethod_failed queued_def calls_expire_lambda)
next
  case None
  let ?n = "length (once_flags st)"
  let ?st' = "invokeMethod client now None sr request st"
  have q: "queued i ?st' \<longleftrightarrow> i = ?n \<or> queued i st" for i
    by (auto simp add: invokeMethod_registered Let_def queued_def armed_waiter_def)
  have nt: "notified ?st' = notified st" by (simp add: invokeMethod_registered Let_def)
  have len: "length (once_flags ?st') = Suc ?n" by (simp add: invokeMethod_registered Let_def)
  have cs: "calls ?st' = calls st @ (if code sr \<noteq> OK then [(?n, Inl (StatusOf sr))] else [])"
    by (simp add: invokeMethod_registered Let_def calls_expire_lambda)
  show ?thesis
  proof (cases "code sr = OK")
    case True
    have ee: "early_expire ?st' = early_expire st"
      using True by (simp add: invokeMethod_registered Let_def)
    show ?thesis unfolding None
      by (rule early_inv_mono[OF assms ee]) (auto simp: q nt len cs)
  next
    case False
    have ee: "early_expire ?st' = early_expire st @ [(?n, sr)]"
      using False by (simp add: invokeMethod_registered Let_def)
    have old: "e \<in> set (early_expire st) \<Longrightarrow>
        code (snd e) \<noteq> OK \<and> fst e < ?n
        \<and> (fst e, Inl (StatusOf (snd e))) \<in> set (calls st)
        \<and> (queued (fst e) st \<or> fst e \<in> fst ` set (notified st))" for e
      using assms by (simp add: early_inv_def)
    have fresh: "?n \<notin> fst ` set (early_expire st)" using old by fastforce
    show ?thesis unfolding None early_inv_def
    proof (intro conjI ballI)
      show "distinct (map fst (early_expire ?st'))"
        using assms fresh by (simp add: ee early_inv_def)
    next
      fix e assume "e \<in> set (early_expire ?st')"
      then consider "e = (?n, sr)" | "e \<in> set (early_expire st)" by (auto simp: ee)
      then have "code (snd e) \<noteq> OK \<and> fst e < length (once_flags ?st')
          \<and> (fst e, Inl (StatusOf (snd e))) \<in> set (calls ?st')
          \<and> (queued (fst e) ?st' \<or> fst e \<in> fst ` set (notified ?st'))"
      proof cases
        case 1
        then show ?thesis using False by (simp add: len cs q)
      next
        case 2
        then show ?thesis using old[OF 2] by (auto simp: len cs q nt)
      qed
      then show "code (snd e) \<noteq> OK" "fst e < length (once_flags ?st')"
        "(fst e, Inl (StatusOf (snd e))) \<in> set (calls ?st')"
        "queued (fst e) ?st' \<or> fst e \<in> fst ` set (notified ?st')"
        by blast+
    qed
  qed
qed

lemma early_inv_doWork_iteration:
  assumes "early_inv st" shows "early_inv (doWork_iteration now st)"
proof (cases "pending st \<noteq> [] \<and> when_expire (hd (pending st)) \<le> now")
  case True
  let ?ex = "expire (hd (pending st))"
  let ?st' = "doWork_iteration now st"
  have "expire ` set (pending st) = insert ?ex (expire ` set (pq_pop (pending st)))"
    using True set_pq_pop[of "pending st"] by (metis image_insert)
  then have q: "queued i st \<Longrightarrow> i = ?ex \<or> queued i ?st'" for i
    using True by (auto simp add: doWork_iteration_due queued_def)
  have n: "fst ` set (notified ?st') = insert ?ex (fst ` set (notified st))"
    using True by (simp add: doWork_iteration_due)
  show ?thesis using assms
  proof (rule early_inv_mono)
    show "early_expire ?st' = early_expire st" using True by (simp add: doWork_iteration_due)
    show "length (once_flags st) \<le> length (once_flags ?st')"
      using True by (simp add: doWork_iteration_due)
    show "set (calls st) \<subseteq> set (calls ?st')"
      using True by (auto simp add: doWork_iteration_due calls_notify)
    show "queued i ?st' \<or> i \<in> fst ` set (notified ?st')"
      if "queued i st \<or> i \<in> fst ` set (notified st)" for i
      using that q[of i] n by auto
  qed
next
  case False
  then show ?thesis using assms by (subst doWork_iteration_idle) auto
qed

lemma early_inv_scrub:
  assumes "early_inv st" shows "early_inv (ExpireWorker_scrub iid st)"
  using assms
proof (rule early_inv_mono)
  let ?st' = "ExpireWorker_scrub iid st"
  show "early_expire ?st' = early_expire st" by (simp add: ExpireWorker_scrub_unfold)
  show "length (once_flags st) \<le> length (once_flags ?st')" by (simp add: once_flags_scrub)
  show "set (calls st) \<subseteq> set (calls ?st')"
    using calls_notify_all[of discard_reason
        "foldl (\<lambda>s h. release_handle h s)
          (st\<lparr>pending := filter (\<lambda>p. \<not> iid = instance_id p) (pending st)\<rparr>)
          (map response_listener (filter (\<lambda>p. iid = instance_id p) (pending st)))"
        "map expire (filter (\<lambda>p. iid = instance_id p) (pending st))"]
    by (simp add: ExpireWorker_scrub_unfold)
  have "map fst (notified ?st') =
      map fst (notified st) @ map expire (filter (\<lambda>p. iid = instance_id p) (pending st))"
    by (simp add: ExpireWorker_scrub_unfold notified_notify_all comp_def)
  then have "set (map fst (notified ?st')) =
      set (map fst (notified st) @ map expire (filter (\<lambda>p. iid = instance_id p) (pending st)))"
    by (rule arg_cong)
  then have n: "fst ` set (notified ?st') =
      fst ` set (notified st) \<union> expire ` {p \<in> set (pending st). iid = instance_id p}"
    by simp
  show "queued i ?st' \<or> i \<in> fst ` set (notified ?st')"
    if "queued i st \<or> i \<in> fst ` set (notified st)" for i
    using that unfolding n by (auto simp: queued_def pending_scrub)
qed

lemma early_inv_dtor:
  assumes "early_inv st" shows "early_inv (ExpireWorker_dtor st)"
  using assms
proof (rule early_inv_mono)
  let ?st' = "ExpireWorker_dtor st"
  show "early_expire ?st' = early_expire st"
    by (simp add: ExpireWorker_dtor_def ScrubablePendingQueue_dtor_unfold)
  show "length (once_flags st) \<le> length (once_flags ?st')" by (simp add: once_flags_dtor)
  show "set (calls st) \<subseteq> set (calls ?st')"
    using calls_notify_all[of shutdown_reason "st\<lparr>stop := True\<rparr>" "map expire (pending st)"]
    by (simp add: ExpireWorker_dtor_def ScrubablePendingQueue_dtor_unfold)
  have "map fst (notified ?st') = map fst (notified st) @ map expire (pending st)"
    by (simp add: ExpireWorker_dtor_def ScrubablePendingQueue_dtor_unfold notified_notify_all
        comp_def)
  then have "set (map fst (notified ?st')) = set (map fst (notified st) @ map expire (pending st))"
    by (rule arg_cong)
  then have n: "fst ` set (notified ?st') = fst ` set (notified st) \<union> expire ` set (pending st)"
    by simp
  show "queued i ?st' \<or> i \<in> fst ` set (notified ?st')"
    if "queued i st \<or> i \<in> fst ` set (notified st)" for i
    using that unfolding n by (auto simp: queued_def)
qed

lemma early_inv_step: "early_inv st \<Longrightarrow> early_inv (step a st)"
proof (cases a)
  case (Work nows)
  assume "early_inv st"
  then have "early_inv (doWork nows st)"
    by (rule doWork_invariant) (rule early_inv_doWork_iteration)
  then show ?thesis using Work by simp
qed (simp_all add: early_inv_invokeMethod early_inv_deliver early_inv_scrub early_inv_dtor)

lemma early_inv_run: "early_inv (run acts init)"
  by (rule run_invariant) (simp_all add: early_inv_step, simp add: early_inv_def init_def)

section \<open>What a scoped cancellation keeps\<close>

text \<open>
  In every state the system reaches, \<open>ExpireWorker::scrub\<close> for an instance id leaves in
  the container exactly the waiters of the other instances, in their old order; it calls
  the \<open>expire\<close> closure of each removed waiter, after the removal, with the status
  \<open>CANCELLED\<close> "RpcClient for this request was discarded", and releases their listener
  handles; each removed waiter's continuation has then been invoked exactly once, with that
  status if it had not been invoked before. A waiter of another instance is still in the
  container, its listener is still registered, and its once-flag and its continuation are
  as before. Where it stands in the container is another matter.
\<close>

lemma scrub_keeps_other_instances_waiters:
  "pending (ExpireWorker_scrub iid (run acts init)) =
       filter (\<lambda>p. instance_id p \<noteq> iid) (pending (run acts init))
   \<and> notified (ExpireWorker_scrub iid (run acts init)) =
       notified (run acts init) @
       map (\<lambda>p. (expire p, discard_reason, False))
         (filter (\<lambda>p. instance_id p = iid) (pending (run acts init)))
   \<and> released (ExpireWorker_scrub iid (run acts init)) =
       released (run acts init) @
       map response_listener (filter (\<lambda>p. instance_id p = iid) (pending (run acts init)))
   \<and> (\<forall>p \<in> set (pending (run acts init)). instance_id p = iid \<longrightarrow>
         count_calls (expire p) (ExpireWorker_scrub iid (run acts init)) = 1
         \<and> (\<not> once_flags (run acts init) ! expire p \<longrightarrow>
              (expire p, Inl (StatusOf discard_reason))
                \<in> set (calls (ExpireWorker_scrub iid (run acts init)))))
   \<and> (\<forall>p \<in> set (pending (run acts init)). instance_id p \<noteq> iid \<longrightarrow>
         p \<in> set (pending (ExpireWorker_scrub iid (run acts init)))
         \<and> response_listener p \<in> fst ` set (listeners (ExpireWorker_scrub iid (run acts init)))
         \<and> once_flags (ExpireWorker_scrub iid (run acts init)) ! expire p =
             once_flags (run acts init) ! expire p
         \<and> count_calls (expire p) (ExpireWorker_scrub iid (run acts init)) =
             count_calls (expire p) (run acts init))"
proof -
  let ?st = "run acts init"
  let ?st' = "ExpireWorker_scrub iid ?st"
  let ?c = "pending ?st"
  let ?P = "\<lambda>p. iid = instance_id p"
  have eqP: "filter (\<lambda>p. instance_id p = iid) ?c = filter ?P ?c"
    by (rule filter_cong) auto
  have eqN: "filter (\<lambda>p. instance_id p \<noteq> iid) ?c = filter (\<lambda>p. \<not> ?P p) ?c"
    by (rule filter_cong) auto
  have inj: "inj_on expire (set ?c)"
    using notify_inv_distinct(1)[OF notify_inv_run, of acts] by (simp add: distinct_map)
  have lt: "p \<in> set ?c \<Longrightarrow> expire p < length (once_flags ?st)" for p
    using notify_inv_distinct(4)[OF notify_inv_run, of acts] by blast
  have g: "guard_inv ?st" by (rule guard_inv_run)
  have g': "guard_inv ?st'" using g by (rule guard_inv_scrub)
  have 1: "pending ?st' = filter (\<lambda>p. instance_id p \<noteq> iid) ?c"
    unfolding eqN by (rule pending_scrub)
  have q: "ex \<in> set (map expire (filter ?P ?c)) \<Longrightarrow>
        ex \<notin> set (map expire (filter (\<lambda>p. \<not> ?P p) ?c))" for ex
    using inj by (auto dest: inj_onD)
  have "map (\<lambda>ex. (ex, discard_reason, ex \<in> set (map expire (filter (\<lambda>p. \<not> ?P p) ?c))))
          (map expire (filter ?P ?c)) =
        map (\<lambda>ex. (ex, discard_reason, False)) (map expire (filter ?P ?c))"
    by (rule map_cong[OF refl]) (use q in simp)
  then have 2: "notified ?st' = notified ?st @
       map (\<lambda>p. (expire p, discard_reason, False)) (filter (\<lambda>p. instance_id p = iid) ?c)"
    unfolding eqP
    by (simp add: ExpireWorker_scrub_unfold notified_notify_all queued_def comp_def)
  have 3: "released ?st' = released ?st @
       map response_listener (filter (\<lambda>p. instance_id p = iid) ?c)"
    unfolding eqP by (simp add: ExpireWorker_scrub_unfold)
  have calls': "set (calls ?st') = set (calls ?st) \<union>
        {(ex, Inl (StatusOf discard_reason)) | ex.
           ex \<in> set (map expire (filter ?P ?c)) \<and> ex < length (once_flags ?st) \<and> \<not> once_flags ?st ! ex}"
    using calls_notify_all[of discard_reason
        "foldl (\<lambda>s h. release_handle h s)
          (?st\<lparr>pending := filter (\<lambda>p. \<not> ?P p) ?c\<rparr>)
          (map response_listener (filter ?P ?c))"
        "map expire (filter ?P ?c)"]
    by (simp add: ExpireWorker_scrub_unfold)
  have 4: "count_calls (expire p) ?st' = 1 \<and>
      (\<not> once_flags ?st ! expire p \<longrightarrow> (expire p, Inl (StatusOf discard_reason)) \<in> set (calls ?st'))"
    if p: "p \<in> set ?c" "instance_id p = iid" for p
  proof -
    have "once_flags ?st' ! expire p" using p lt[OF p(1)] by (auto simp: once_flags_scrub)
    then have "count_calls (expire p) ?st' = 1"
      using g' lt[OF p(1)] by (simp add: guard_inv_count once_flags_scrub)
    then show ?thesis using p lt[OF p(1)] unfolding calls' by auto
  qed
  have h': "handle_inv ?st'" using handle_inv_run by (rule handle_inv_scrub)
  have 5: "p \<in> set (pending ?st')
         \<and> response_listener p \<in> fst ` set (listeners ?st')
         \<and> once_flags ?st' ! expire p = once_flags ?st ! expire p
         \<and> count_calls (expire p) ?st' = count_calls (expire p) ?st"
    if p: "p \<in> set ?c" "instance_id p \<noteq> iid" for p
  proof -
    have a: "p \<in> set (pending ?st')" using p by (simp add: 1)
    have "set_mset (mset (map fst (listeners ?st'))) =
          set_mset (mset (map response_listener (pending ?st')))"
      using h' by (simp only: handle_inv_def)
    then have b: "response_listener p \<in> fst ` set (listeners ?st')" using a by auto
    have "expire p \<notin> expire ` {p \<in> set ?c. iid = instance_id p}"
      using inj p by (auto dest: inj_onD)
    then have c: "once_flags ?st' ! expire p = once_flags ?st ! expire p"
      using lt[OF p(1)] by (simp add: once_flags_scrub)
    then have "count_calls (expire p) ?st' = count_calls (expire p) ?st"
      using g g' lt[OF p(1)] by (simp add: guard_inv_count once_flags_scrub)
    then show ?thesis using a b c by blast
  qed
  from 1 2 3 4 5 show ?thesis by blast
qed

lemma scrub_keeps_other_instances_waiters_example:
  "pending (run [Invoke (sample_client 500 0) 0 None ok_status (sample_request 7),
                 Invoke (sample_client 800 1) 0 None ok_status (sample_request 8)] init) =
     [\<lparr>when_expire = 500, response_listener = 0, expire = 0, instance_id = 0\<rparr>,
      \<lparr>when_expire = 800, response_listener = 1, expire = 1, instance_id = 1\<rparr>]
   \<and> pending (ExpireWorker_scrub 0
        (run [Invoke (sample_client 500 0) 0 None ok_status (sample_request 7),
              Invoke (sample_client 800 1) 0 None ok_status (sample_request 8)] init)) =
     [\<lparr>when_expire = 800, response_listener = 1, expire = 1, instance_id = 1\<rparr>]
   \<and> count_calls 0 (ExpireWorker_scrub 0
        (run [Invoke (sample_client 500 0) 0 None ok_status (sample_request 7),
              Invoke (sample_client 800 1) 0 None ok_status (sample_request 8)] init)) = 1
   \<and> (0, Inl (StatusOf discard_reason)) \<in> set (calls (ExpireWorker_scrub 0
        (run [Invoke (sample_client 500 0) 0 None ok_status (sample_request 7),
              Invoke (sample_client 800 1) 0 None ok_status (sample_request 8)] init)))
   \<and> count_calls 1 (ExpireWorker_scrub 0
        (run [Invoke (sample_client 500 0) 0 None ok_status (sample_request 7),
              Invoke (sample_client 800 1) 0 None ok_status (sample_request 8)] init)) = 0"
proof -
  let ?A = "[Invoke (sample_client 500 0) 0 None ok_status (sample_request 7),
             Invoke (sample_client 800 1) 0 None ok_status (sample_request 8)]"
  let ?S = "run ?A init"
  let ?w0 = "\<lparr>when_expire = 500, response_listener = 0, expire = 0, instance_id = 0\<rparr>"
  let ?w1 = "\<lparr>when_expire = 800, response_listener = 1, expire = 1, instance_id = 1\<rparr>"
  note T = scrub_keeps_other_instances_waiters [of 0 ?A]
  have p: "pending ?S = [?w0, ?w1]" by code_simp
  have f: "\<not> once_flags ?S ! 0" by code_simp
  have c: "count_calls 1 ?S = 0" by code_simp
  have 1: "pending (ExpireWorker_scrub 0 ?S) = [?w1]"
    using T [THEN conjunct1] by (simp add: p)
  have "?w0 \<in> set (pending ?S)" by (simp add: p)
  then have 2: "count_calls 0 (ExpireWorker_scrub 0 ?S) = 1
      \<and> (0, Inl (StatusOf discard_reason)) \<in> set (calls (ExpireWorker_scrub 0 ?S))"
    using T [THEN conjunct2, THEN conjunct2, THEN conjunct2, THEN conjunct1, THEN bspec, of ?w0] f
    by simp
  have "?w1 \<in> set (pending ?S)" by (simp add: p)
  then have 3: "count_calls 1 (ExpireWorker_scrub 0 ?S) = 0"
    using T [THEN conjunct2, THEN conjunct2, THEN conjunct2, THEN conjunct2, THEN bspec, of ?w1] c
    by simp
  from p 1 2 3 show ?thesis by simp
qed

section \<open>Claims\<close>

text \<open>
  C1. Exactly-once delivery. In every state that the system reaches, the continuation of
  an invocation has been invoked at most once. Every delivery path goes through the
  once-flag: after the \<open>expire\<close> closure has run (registration error, send error,
  deadline expiry, owner discard, worker shutdown), or after the \<open>wrapper\<close> has seen a
  matching response, the continuation has been invoked exactly once; once the flag is
  passed every further attempt leaves the state as it is; and after the teardown of the
  worker every invocation ever made has been resolved exactly once.
\<close>

theorem invokeMethod_exactly_once:
  assumes "i < length (once_flags (run acts init))"
  shows "count_calls i (run acts init) \<le> 1
     \<and> count_calls i (expire_lambda i reason (run acts init)) = 1
     \<and> (reqid (attributes m) = rid \<longrightarrow> count_calls i (wrapper rid i m (run acts init)) = 1)
     \<and> (once_flags (run acts init) ! i \<longrightarrow>
          expire_lambda i reason (run acts init) = run acts init
          \<and> wrapper rid i m (run acts init) = run acts init)
     \<and> count_calls i (run (acts @ [Shutdown]) init) = 1"
proof -
  let ?st = "run acts init"
  have g: "guard_inv ?st" by (rule guard_inv_run)
  then have 1: "count_calls i ?st \<le> 1" by (simp add: guard_inv_def)
  have once: "count_calls i (call_once i r ?st) = 1" for r
    using guard_inv_call_once [OF g, of i r] assms by (simp add: guard_inv_def)
  then have 2: "count_calls i (expire_lambda i reason ?st) = 1"
    by (simp add: expire_lambda_def)
  have 3: "reqid (attributes m) = rid \<longrightarrow> count_calls i (wrapper rid i m ?st) = 1"
    using once by (simp add: wrapper_def)
  have 4: "once_flags ?st ! i \<longrightarrow>
      expire_lambda i reason ?st = ?st \<and> wrapper rid i m ?st = ?st"
    by (simp add: expire_lambda_def wrapper_def call_once_def)
  have "guard_inv (run (acts @ [Shutdown]) init)" by (rule guard_inv_run)
  moreover have "once_flags (ExpireWorker_dtor ?st) ! i"
    using armed_inv_run assms by (rule all_passed_dtor)
  ultimately have 5: "count_calls i (run (acts @ [Shutdown]) init) = 1"
    using assms by (simp add: guard_inv_def once_flags_dtor)
  from 1 2 3 4 5 show ?thesis by blast
qed

theorem invokeMethod_exactly_once_witness:
  "0 < length (once_flags (run [Invoke (sample_client 10 0) 0 None unavailable (sample_request 7),
        Deliver 0 (sample_response 7 OK), Work [20]] init))
   \<and> count_calls 0 (run [Invoke (sample_client 10 0) 0 None unavailable (sample_request 7),
        Deliver 0 (sample_response 7 OK), Work [20]] init) \<le> 1
   \<and> reqid (attributes (sample_response 7 OK)) = \<lparr>msb = 0, lsb = 7\<rparr>
   \<and> count_calls 0 (wrapper \<lparr>msb = 0, lsb = 7\<rparr> 0 (sample_response 7 OK)
        (run [Invoke (sample_client 10 0) 0 None unavailable (sample_request 7),
              Deliver 0 (sample_response 7 OK), Work [20]] init)) = 1
   \<and> once_flags (run [Invoke (sample_client 10 0) 0 None unavailable (sample_request 7),
        Deliver 0 (sample_response 7 OK), Work [20]] init) ! 0
   \<and> expire_lambda 0 (StatusOf expire_reason)
        (run [Invoke (sample_client 10 0) 0 None unavailable (sample_request 7),
              Deliver 0 (sample_response 7 OK), Work [20]] init)
      = run [Invoke (sample_client 10 0) 0 None unavailable (sample_request 7),
              Deliver 0 (sample_response 7 OK), Work [20]] init
   \<and> count_calls 0 (run ([Invoke (sample_client 10 0) 0 None unavailable (sample_request 7),
        Deliver 0 (sample_response 7 OK), Work [20]] @ [Shutdown]) init) = 1"
proof -
  let ?A = "[Invoke (sample_client 10 0) 0 None unavailable (sample_request 7),
             Deliver 0 (sample_response 7 OK), Work [20]]"
  have h: "0 < length (once_flags (run ?A init))" by code_simp
  have f: "once_flags (run ?A init) ! 0" by code_simp
  have r: "reqid (attributes (sample_response 7 OK)) = \<lparr>msb = 0, lsb = 7\<rparr>" by simp
  show ?thesis
    using h f r
      invokeMethod_exactly_once
        [OF h, where reason = "StatusOf expire_reason" and m = "sample_response 7 OK"
           and rid = "\<lparr>msb = 0, lsb = 7\<rparr>"]
    by blast
qed

text \<open>
  C2. Deadline order. The worker takes the front of the container as the earliest waiter.
  As long as the container is only pushed to and popped from it is a heap and the worker
  notifies in deadline order (\<open>deadline_order_without_scrub\<close>). \<open>scrub\<close> however erases
  elements out of the middle of the container and leaves the rest in their old relative
  order, which need not be a heap. Four clients with different time-to-live values invoke
  at time 0, giving the deadlines 100, 300, 200 and 400; the first client is destroyed at
  once. The container is then 300, 200, 400. At time 250 the worker expires nothing,
  although the waiter with deadline 200 is due; from time 300 on it notifies the waiters in
  the order 300, 200, 400. None of these three waiters was ever removed by a response or a
  cancellation.
\<close>

theorem scrub_breaks_deadline_order:
  "map (\<lambda>p. (expire p, when_expire p))
     (pending (run [Invoke (sample_client 100 0) 0 None ok_status (sample_request 0),
                    Invoke (sample_client 300 1) 0 None ok_status (sample_request 1),
                    Invoke (sample_client 200 2) 0 None ok_status (sample_request 2),
                    Invoke (sample_client 400 3) 0 None ok_status (sample_request 3),
                    Discard 0] init)) = [(1, 300), (2, 200), (3, 400)]
   \<and> map fst (notified (run [Invoke (sample_client 100 0) 0 None ok_status (sample_request 0),
                    Invoke (sample_client 300 1) 0 None ok_status (sample_request 1),
                    Invoke (sample_client 200 2) 0 None ok_status (sample_request 2),
                    Invoke (sample_client 400 3) 0 None ok_status (sample_request 3),
                    Discard 0, Work [250]] init)) = [0]
   \<and> map (\<lambda>n. (fst n, code (fst (snd n))))
        (notified (run [Invoke (sample_client 100 0) 0 None ok_status (sample_request 0),
                    Invoke (sample_client 300 1) 0 None ok_status (sample_request 1),
                    Invoke (sample_client 200 2) 0 None ok_status (sample_request 2),
                    Invoke (sample_client 400 3) 0 None ok_status (sample_request 3),
                    Discard 0, Work [250, 300, 300, 400]] init))
       = [(0, CANCELLED), (1, DEADLINE_EXCEEDED), (2, DEADLINE_EXCEEDED), (3, DEADLINE_EXCEEDED)]"
  by code_simp

text \<open>
  C3. Registration failure. When \<open>registerListener\<close> fails with \<open>err\<close>, \<open>invokeMethod\<close>
  allocates the once-flag, passes it and invokes the continuation with \<open>err\<close> as the
  unexpected status, and changes nothing else: nothing is sent, no waiter is enqueued, no
  listener is registered.
\<close>

theorem registration_failure_resolves_without_send_or_timer:
  "invokeMethod client now (Some err) send_result request st =
     st\<lparr>once_flags := once_flags st @ [True],
        calls := calls st @ [(length (once_flags st), Inl (StatusOf err))]\<rparr>"
  by (simp add: invokeMethod_failed expire_lambda_def call_once_def)

text \<open>
  C4. Send failure. When the registration succeeds, the request is passed to \<open>send\<close>; if
  the returned status is not \<open>OK\<close> the continuation is invoked with that status as the
  unexpected status; and whatever \<open>send\<close> returned, the waiter holding the new listener
  handle and the \<open>expire\<close> closure of this invocation is put into the queue.
\<close>

theorem send_failure_still_arms_waiter:
  "(code send_result \<noteq> OK \<longrightarrow>
      calls (invokeMethod client now None send_result request st) =
        calls st @ [(length (once_flags st), Inl (StatusOf send_result))])
   \<and> send_calls (invokeMethod client now None send_result request st) = send_calls st @ [request]
   \<and> pending (invokeMethod client now None send_result request st) =
        pq_emplace \<lparr>when_expire = now + ttl client, response_listener = next_handle st,
                    expire = length (once_flags st),
                    instance_id = service_instance_id client\<rparr> (pending st)
   \<and> \<lparr>when_expire = now + ttl client, response_listener = next_handle st,
       expire = length (once_flags st), instance_id = service_instance_id client\<rparr>
       \<in> set (pending (invokeMethod client now None send_result request st))
   \<and> listeners (invokeMethod client now None send_result request st) =
        listeners st @ [(next_handle st, attr_id (attributes request), length (once_flags st))]"
  by (simp add: invokeMethod_registered Let_def armed_waiter_def calls_expire_lambda)

theorem send_failure_still_arms_waiter_witness:
  "code unavailable \<noteq> OK
   \<and> calls (invokeMethod (sample_client 50 3) 1000 None unavailable (sample_request 7) init) =
       [(0, Inl (StatusOf unavailable))]
   \<and> pending (invokeMethod (sample_client 50 3) 1000 None unavailable (sample_request 7) init) =
       [\<lparr>when_expire = 1050, response_listener = 0, expire = 0, instance_id = 3\<rparr>]"
proof -
  have a: "code unavailable \<noteq> OK" by simp
  have b: "pq_emplace \<lparr>when_expire = 1050, response_listener = 0, expire = 0, instance_id = 3\<rparr> []
      = [\<lparr>when_expire = 1050, response_listener = 0, expire = 0, instance_id = 3\<rparr>]"
    by code_simp
  show ?thesis
    using a b send_failure_still_arms_waiter
      [of unavailable "sample_client 50 3" 1000 "sample_request 7" init]
    by (simp add: init_def)
qed

text \<open>
  C5. Scoped cancellation. \<open>scrub\<close> removes exactly the waiters of the given instance and
  notifies them with the discarded status, and the waiters of the other instances stay in
  the container (\<open>scrub_keeps_other_instances_waiters\<close>). But the container is no longer a
  heap afterwards (the defect of C2), so a waiter of another instance is not resolved by
  its own timeout any more. Three clients invoke at time 0 with the deadlines 100,
  1000000000 and 200. Undisturbed, the worker resolves the third invocation with the
  expiry status at time 250. When the first client is destroyed at time 0 the container
  becomes 1000000000, 200; the passes of the worker at 250, 1000 and 999999999 expire
  nothing and the third continuation is not called; it is called only after the waiter
  with the deadline 1000000000 has expired.
\<close>

theorem scrub_delays_other_instances_timeout:
  "calls (run [Invoke (sample_client 100 0) 0 None ok_status (sample_request 0),
               Invoke (sample_client 1000000000 1) 0 None ok_status (sample_request 1),
               Invoke (sample_client 200 2) 0 None ok_status (sample_request 2),
               Work [250, 250]] init)
     = [(0, Inl (StatusOf expire_reason)), (2, Inl (StatusOf expire_reason))]
   \<and> map (\<lambda>p. (expire p, instance_id p, when_expire p))
        (pending (run [Invoke (sample_client 100 0) 0 None ok_status (sample_request 0),
                       Invoke (sample_client 1000000000 1) 0 None ok_status (sample_request 1),
                       Invoke (sample_client 200 2) 0 None ok_status (sample_request 2),
                       Discard 0] init))
     = [(1, 1, 1000000000), (2, 2, 200)]
   \<and> calls (run [Invoke (sample_client 100 0) 0 None ok_status (sample_request 0),
               Invoke (sample_client 1000000000 1) 0 None ok_status (sample_request 1),
               Invoke (sample_client 200 2) 0 None ok_status (sample_request 2),
               Discard 0, Work [250, 250, 1000, 999999999]] init)
     = [(0, Inl (StatusOf discard_reason))]
   \<and> calls (run [Invoke (sample_client 100 0) 0 None ok_status (sample_request 0),
               Invoke (sample_client 1000000000 1) 0 None ok_status (sample_request 1),
               Invoke (sample_client 200 2) 0 None ok_status (sample_request 2),
               Discard 0, Work [250, 999999999, 1000000000, 1000000000]] init)
     = [(0, Inl (StatusOf discard_reason)), (1, Inl (StatusOf expire_reason)),
        (2, Inl (StatusOf expire_reason))]"
  by code_simp

text \<open>
  C6. Shutdown drains all. In every state the system reaches, the destruction of the
  worker calls the \<open>expire\<close> closure of every waiter in the container with the status
  \<open>CANCELLED\<close> "ExpireWorker shutting down", each while the waiter is still in the
  container (so before the container is deallocated), and leaves the queue empty; the
  continuation of every such waiter has then been invoked exactly once, with that status
  if it had not been invoked before.
\<close>

theorem shutdown_notifies_every_pending_waiter:
  "pending (ExpireWorker_dtor (run acts init)) = []
   \<and> notified (ExpireWorker_dtor (run acts init)) =
       notified (run acts init) @
       map (\<lambda>p. (expire p, shutdown_reason, True)) (pending (run acts init))
   \<and> (\<forall>p \<in> set (pending (run acts init)).
         count_calls (expire p) (ExpireWorker_dtor (run acts init)) = 1
         \<and> (\<not> once_flags (run acts init) ! expire p \<longrightarrow>
              (expire p, Inl (StatusOf shutdown_reason))
                \<in> set (calls (ExpireWorker_dtor (run acts init)))))"
proof -
  let ?st = "run acts init"
  let ?st' = "ExpireWorker_dtor ?st"
  have 1: "pending ?st' = []" by simp
  have "map (\<lambda>ex. (ex, shutdown_reason, ex \<in> set (map expire (pending ?st)))) (map expire (pending ?st))
      = map (\<lambda>p. (expire p, shutdown_reason, True)) (pending ?st)"
    by simp
  then have 2: "notified ?st' = notified ?st @
       map (\<lambda>p. (expire p, shutdown_reason, True)) (pending ?st)"
    by (simp add: ExpireWorker_dtor_def ScrubablePendingQueue_dtor_unfold notified_notify_all
        queued_def)
  have 3: "count_calls (expire p) ?st' = 1 \<and>
      (\<not> once_flags ?st ! expire p \<longrightarrow> (expire p, Inl (StatusOf shutdown_reason)) \<in> set (calls ?st'))"
    if p: "p \<in> set (pending ?st)" for p
  proof -
    have lt: "expire p < length (once_flags ?st)"
      using notify_inv_distinct(4)[OF notify_inv_run] p by blast
    have "once_flags ?st' ! expire p" using armed_inv_run lt by (rule all_passed_dtor)
    moreover have "guard_inv ?st'" using guard_inv_run by (rule guard_inv_dtor)
    ultimately have "count_calls (expire p) ?st' = 1"
      using lt by (simp add: guard_inv_count once_flags_dtor)
    moreover have "set (calls ?st') = set (calls ?st) \<union>
        {(ex, Inl (StatusOf shutdown_reason)) | ex.
           ex \<in> set (map expire (pending ?st)) \<and> ex < length (once_flags ?st) \<and> \<not> once_flags ?st ! ex}"
      using calls_notify_all[of shutdown_reason "?st\<lparr>stop := True\<rparr>" "map expire (pending ?st)"]
      by (simp add: ExpireWorker_dtor_def ScrubablePendingQueue_dtor_unfold)
    ultimately show ?thesis using p lt by auto
  qed
  from 1 2 3 show ?thesis by blast
qed

theorem shutdown_notifies_every_pending_waiter_witness:
  "pending (run [Invoke (sample_client 500 0) 0 None ok_status (sample_request 7),
                 Invoke (sample_client 800 1) 0 None ok_status (sample_request 8)] init) =
     [\<lparr>when_expire = 500, response_listener = 0, expire = 0, instance_id = 0\<rparr>,
      \<lparr>when_expire = 800, response_listener = 1, expire = 1, instance_id = 1\<rparr>]
   \<and> pending (ExpireWorker_dtor
        (run [Invoke (sample_client 500 0) 0 None ok_status (sample_request 7),
              Invoke (sample_client 800 1) 0 None ok_status (sample_request 8)] init)) = []
   \<and> count_calls 0 (ExpireWorker_dtor
        (run [Invoke (sample_client 500 0) 0 None ok_status (sample_request 7),
              Invoke (sample_client 800 1) 0 None ok_status (sample_request 8)] init)) = 1
   \<and> count_calls 1 (ExpireWorker_dtor
        (run [Invoke (sample_client 500 0) 0 None ok_status (sample_request 7),
              Invoke (sample_client 800 1) 0 None ok_status (sample_request 8)] init)) = 1
   \<and> (1, Inl (StatusOf shutdown_reason)) \<in> set (calls (ExpireWorker_dtor
        (run [Invoke (sample_client 500 0) 0 None ok_status (sample_request 7),
              Invoke (sample_client 800 1) 0 None ok_status (sample_request 8)] init)))"
proof -
  let ?S = "run [Invoke (sample_client 500 0) 0 None ok_status (sample_request 7),
                 Invoke (sample_client 800 1) 0 None ok_status (sample_request 8)] init"
  have p: "pending ?S =
     [\<lparr>when_expire = 500, response_listener = 0, expire = 0, instance_id = 0\<rparr>,
      \<lparr>when_expire = 800, response_listener = 1, expire = 1, instance_id = 1\<rparr>]"
    by code_simp
  have f: "once_flags ?S = [False, False]" by code_simp
  show ?thesis
    using shutdown_notifies_every_pending_waiter
      [of "[Invoke (sample_client 500 0) 0 None ok_status (sample_request 7),
            Invoke (sample_client 800 1) 0 None ok_status (sample_request 8)]"]
    unfolding p f by simp
qed

text \<open>
  C7. Response filtering. \<open>invokeMethod\<close> registers its \<open>wrapper\<close> with the identifier of
  the outgoing request. When the transport passes a message to a registered listener, a
  message whose \<open>reqid\<close> differs from the captured identifier changes nothing; a message
  whose \<open>reqid\<close> is equal goes to the one-shot guard, and if the guard has not been passed
  the continuation is invoked with the message itself when its \<open>commstatus\<close> is \<open>OK\<close>,
  and with the \<open>commstatus\<close> value as the unexpected status otherwise.
\<close>

theorem listener_filters_by_reqid_and_checks_commstatus:
  "(map_of (listeners st) h = Some (rid, i) \<longrightarrow>
      (reqid (attributes m) \<noteq> rid \<longrightarrow> deliver h m st = st)
      \<and> (reqid (attributes m) = rid \<longrightarrow>
           calls (deliver h m st) =
             calls st @ (if i < length (once_flags st) \<and> \<not> once_flags st ! i
                         then [(i, if commstatus (attributes m) = OK then Inr m
                                   else Inl (CommstatusOf (commstatus (attributes m))))]
                         else [])))
   \<and> listeners (invokeMethod client now None send_result request st) =
        listeners st @ [(next_handle st, attr_id (attributes request), length (once_flags st))]"
  by (simp add: deliver_def wrapper_def calls_call_once invokeMethod_registered Let_def)

theorem listener_filters_by_reqid_and_checks_commstatus_witness:
  "map_of (listeners (run [Invoke (sample_client 500 0) 0 None ok_status (sample_request 7)] init)) 0
     = Some (\<lparr>msb = 0, lsb = 7\<rparr>, 0)
   \<and> reqid (attributes (sample_response 8 OK)) \<noteq> \<lparr>msb = 0, lsb = 7\<rparr>
   \<and> deliver 0 (sample_response 8 OK)
        (run [Invoke (sample_client 500 0) 0 None ok_status (sample_request 7)] init)
      = run [Invoke (sample_client 500 0) 0 None ok_status (sample_request 7)] init
   \<and> reqid (attributes (sample_response 7 ABORTED)) = \<lparr>msb = 0, lsb = 7\<rparr>
   \<and> calls (deliver 0 (sample_response 7 ABORTED)
        (run [Invoke (sample_client 500 0) 0 None ok_status (sample_request 7)] init))
      = [(0, Inl (CommstatusOf ABORTED))]
   \<and> calls (deliver 0 (sample_response 7 OK)
        (run [Invoke (sample_client 500 0) 0 None ok_status (sample_request 7)] init))
      = [(0, Inr (sample_response 7 OK))]"
proof -
  let ?S = "run [Invoke (sample_client 500 0) 0 None ok_status (sample_request 7)] init"
  have l: "map_of (listeners ?S) 0 = Some (\<lparr>msb = 0, lsb = 7\<rparr>, 0)" by code_simp
  have f: "once_flags ?S = [False]" by code_simp
  have c: "calls ?S = []" by code_simp
  have r1: "reqid (attributes (sample_response 8 OK)) \<noteq> \<lparr>msb = 0, lsb = 7\<rparr>" by simp
  have r2: "reqid (attributes (sample_response 7 ABORTED)) = \<lparr>msb = 0, lsb = 7\<rparr>" by simp
  have r3: "reqid (attributes (sample_response 7 OK)) = \<lparr>msb = 0, lsb = 7\<rparr>" by simp
  show ?thesis
    using l r1 r2
      listener_filters_by_reqid_and_checks_commstatus
        [of ?S 0 "\<lparr>msb = 0, lsb = 7\<rparr>" 0 "sample_response 8 OK"]
      listener_filters_by_reqid_and_checks_commstatus
        [of ?S 0 "\<lparr>msb = 0, lsb = 7\<rparr>" 0 "sample_response 7 ABORTED"]
      listener_filters_by_reqid_and_checks_commstatus
        [of ?S 0 "\<lparr>msb = 0, lsb = 7\<rparr>" 0 "sample_response 7 OK"]
    unfolding f c by simp
qed

text \<open>
  C8, as the code has it: the matching response does not release the listener. A client
  with a time-to-live of 500 invokes at time 0 and the matching response with status \<open>OK\<close>
  arrives: the continuation has received the message, no handle has been released, the
  listener is still registered and the waiter is still queued for the deadline 500.
\<close>

theorem listener_not_released_by_response:
  "calls (run [Invoke (sample_client 500 0) 0 None ok_status (sample_request 7),
               Deliver 0 (sample_response 7 OK)] init) = [(0, Inr (sample_response 7 OK))]
   \<and> released (run [Invoke (sample_client 500 0) 0 None ok_status (sample_request 7),
               Deliver 0 (sample_response 7 OK)] init) = []
   \<and> map fst (listeners (run [Invoke (sample_client 500 0) 0 None ok_status (sample_request 7),
               Deliver 0 (sample_response 7 OK)] init)) = [0]
   \<and> map when_expire (pending (run [Invoke (sample_client 500 0) 0 None ok_status (sample_request 7),
               Deliver 0 (sample_response 7 OK)] init)) = [500]"
  by code_simp

text \<open>
  C8, amended. The listener handle of an invocation is owned by its queued waiter and is
  released exactly once, when the waiter leaves the queue (expiry by the worker, scoped
  cancellation, destruction of the queue): in every state the system reaches no handle has
  been released twice, every handle handed out is either released or held by a queued
  waiter and never both, the registered listeners are exactly those of the queued waiters,
  the delivery of a message releases and unregisters nothing, and after the teardown of the
  worker every handle ever handed out has been released exactly once.
\<close>

theorem listener_released_with_waiter:
  "distinct (released (run acts init))
   \<and> set (released (run acts init)) \<union> response_listener ` set (pending (run acts init))
        = {..<next_handle (run acts init)}
   \<and> set (released (run acts init)) \<inter> response_listener ` set (pending (run acts init)) = {}
   \<and> fst ` set (listeners (run acts init)) = response_listener ` set (pending (run acts init))
   \<and> released (deliver h m (run acts init)) = released (run acts init)
   \<and> listeners (deliver h m (run acts init)) = listeners (run acts init)
   \<and> mset (released (run (acts @ [Shutdown]) init)) = mset [0..<next_handle (run acts init)]"
proof -
  let ?st = "run acts init"
  have h: "handle_inv ?st" by (rule handle_inv_run)
  have 1: "distinct (released ?st)" using h by (rule handle_inv_distinct)
  have "set_mset (mset (released ?st) + mset (map response_listener (pending ?st))) =
        set_mset (mset [0..<next_handle ?st])"
    using h by (simp only: handle_inv_def)
  then have 2: "set (released ?st) \<union> response_listener ` set (pending ?st) = {..<next_handle ?st}"
    by (simp add: atLeast0LessThan)
  have 3: "set (released ?st) \<inter> response_listener ` set (pending ?st) = {}"
    using h by (rule handle_inv_distinct)
  have "set_mset (mset (map fst (listeners ?st))) = set_mset (mset (map response_listener (pending ?st)))"
    using h by (simp only: handle_inv_def)
  then have 4: "fst ` set (listeners ?st) = response_listener ` set (pending ?st)" by simp
  have 5: "released (deliver h m ?st) = released ?st \<and> listeners (deliver h m ?st) = listeners ?st"
    by simp
  have "handle_inv (run (acts @ [Shutdown]) init)" by (rule handle_inv_run)
  then have 6: "mset (released (run (acts @ [Shutdown]) init)) = mset [0..<next_handle ?st]"
    by (simp add: handle_inv_def ExpireWorker_dtor_def ScrubablePendingQueue_dtor_unfold)
  from 1 2 3 4 5 6 show ?thesis by blast
qed

theorem listener_released_with_waiter_witness:
  "released (run [Invoke (sample_client 500 0) 0 None ok_status (sample_request 7),
               Deliver 0 (sample_response 7 OK), Work [100, 500, 600]] init) = [0]
   \<and> distinct (released (run [Invoke (sample_client 500 0) 0 None ok_status (sample_request 7),
               Deliver 0 (sample_response 7 OK), Work [100, 500, 600]] init))
   \<and> mset (released (run ([Invoke (sample_client 500 0) 0 None ok_status (sample_request 7),
               Deliver 0 (sample_response 7 OK), Work [100, 500, 600]] @ [Shutdown]) init))
      = mset [0..<next_handle (run [Invoke (sample_client 500 0) 0 None ok_status (sample_request 7),
               Deliver 0 (sample_response 7 OK), Work [100, 500, 600]] init)]"
proof -
  have r: "released (run [Invoke (sample_client 500 0) 0 None ok_status (sample_request 7),
               Deliver 0 (sample_response 7 OK), Work [100, 500, 600]] init) = [0]"
    by code_simp
  show ?thesis
    using r listener_released_with_waiter
      [of "[Invoke (sample_client 500 0) 0 None ok_status (sample_request 7),
            Deliver 0 (sample_response 7 OK), Work [100, 500, 600]]"]
    by blast
qed

text \<open>
  C9, as the code has it. The destructor of the queue calls the closures of the waiters in
  place: a client invokes and the worker is torn down, and the one call of \<open>expire\<close> found
  its waiter in the container. And a waiter's \<open>expire\<close> can run twice: when \<open>send\<close> fails,
  \<open>invokeMethod\<close> calls the closure itself (the continuation receives the send status),
  then puts it into the queue, and the worker calls the same closure again at the
  deadline.
\<close>

theorem on_expire_runs_twice_and_in_place:
  "notified (run [Invoke (sample_client 500 0) 0 None ok_status (sample_request 7), Shutdown] init)
     = [(0, shutdown_reason, True)]
   \<and> calls (run [Invoke (sample_client 500 0) 0 None unavailable (sample_request 7)] init)
     = [(0, Inl (StatusOf unavailable))]
   \<and> early_expire (run [Invoke (sample_client 500 0) 0 None unavailable (sample_request 7)] init)
     = [(0, unavailable)]
   \<and> notified (run [Invoke (sample_client 500 0) 0 None unavailable (sample_request 7)] init) = []
   \<and> map expire (pending
        (run [Invoke (sample_client 500 0) 0 None unavailable (sample_request 7)] init)) = [0]
   \<and> notified (run [Invoke (sample_client 500 0) 0 None unavailable (sample_request 7),
                    Work [500]] init)
     = [(0, expire_reason, False)]"
  by code_simp

text \<open>
  C9, amended. In every state the system reaches, the queue machinery (expiry by the
  worker, scoped cancellation, destruction of the queue) has called the \<open>expire\<close> closure
  of a waiter at most once, and \<open>invokeMethod\<close> has called it at most once more, before
  the waiter was enqueued and only after a failed \<open>send\<close> (the continuation then has that
  send status, and the waiter is queued or has been called by the queue as well; after the
  teardown of the worker every such closure has been called by the queue too). No waiter
  whose closure the queue has called is in the queue. At a call made by the worker for an
  expiry or by a scoped cancellation the waiter had already been removed from the
  container; at a call made by the destructor (the only calls with the shutdown status)
  the waiter was still in the container, which is deallocated after the last of these
  calls.
\<close>

theorem on_expire_once_by_queue_once_before_enqueue:
  "distinct (map fst (notified (run acts init)))
   \<and> distinct (map fst (early_expire (run acts init)))
   \<and> fst ` set (notified (run acts init)) \<inter> expire ` set (pending (run acts init)) = {}
   \<and> (\<forall>n \<in> set (notified (run acts init)).
        (if snd (snd n) then fst (snd n) = shutdown_reason
         else fst (snd n) = expire_reason \<or> fst (snd n) = discard_reason))
   \<and> (\<forall>e \<in> set (early_expire (run acts init)).
        code (snd e) \<noteq> OK
        \<and> (fst e, Inl (StatusOf (snd e))) \<in> set (calls (run acts init))
        \<and> (fst e \<in> expire ` set (pending (run acts init))
             \<or> fst e \<in> fst ` set (notified (run acts init))))
   \<and> fst ` set (early_expire (run acts init))
        \<subseteq> fst ` set (notified (run (acts @ [Shutdown]) init))"
proof -
  let ?st = "run acts init"
  have n: "notify_inv ?st" by (rule notify_inv_run)
  have e: "early_inv ?st" by (rule early_inv_run)
  have 1: "distinct (map fst (notified ?st))" using n by (rule notify_inv_distinct)
  have 2: "distinct (map fst (early_expire ?st))" using e by (simp add: early_inv_def)
  have 3: "fst ` set (notified ?st) \<inter> expire ` set (pending ?st) = {}"
    using n by (rule notify_inv_distinct)
  have 4: "\<forall>n \<in> set (notified ?st).
        (if snd (snd n) then fst (snd n) = shutdown_reason
         else fst (snd n) = expire_reason \<or> fst (snd n) = discard_reason)"
    using n by (simp add: notify_inv_def)
  have 5: "\<forall>e \<in> set (early_expire ?st).
        code (snd e) \<noteq> OK
        \<and> (fst e, Inl (StatusOf (snd e))) \<in> set (calls ?st)
        \<and> (fst e \<in> expire ` set (pending ?st) \<or> fst e \<in> fst ` set (notified ?st))"
    using e by (simp add: early_inv_def queued_def)
  have 6: "fst ` set (early_expire ?st) \<subseteq> fst ` set (notified (run (acts @ [Shutdown]) init))"
  proof
    fix i assume "i \<in> fst ` set (early_expire ?st)"
    then obtain x where x: "x \<in> set (early_expire ?st)" "i = fst x" by blast
    have ee: "early_expire (ExpireWorker_dtor ?st) = early_expire ?st"
      by (simp add: ExpireWorker_dtor_def ScrubablePendingQueue_dtor_unfold)
    have "early_inv (ExpireWorker_dtor ?st)" using e by (rule early_inv_dtor)
    then have "queued (fst x) (ExpireWorker_dtor ?st)
        \<or> fst x \<in> fst ` set (notified (ExpireWorker_dtor ?st))"
      using x(1) ee by (simp add: early_inv_def)
    then show "i \<in> fst ` set (notified (run (acts @ [Shutdown]) init))"
      using x(2) by (simp add: queued_def)
  qed
  from 1 2 3 4 5 6 show ?thesis by blast
qed

theorem on_expire_once_by_queue_once_before_enqueue_witness:
  "notified (run [Invoke (sample_client 500 0) 0 None unavailable (sample_request 7),
                  Invoke (sample_client 800 1) 0 None ok_status (sample_request 8),
                  Invoke (sample_client 900 2) 0 None ok_status (sample_request 9),
                  Work [500], Discard 1, Shutdown] init)
     = [(0, expire_reason, False), (1, discard_reason, False), (2, shutdown_reason, True)]
   \<and> early_expire (run [Invoke (sample_client 500 0) 0 None unavailable (sample_request 7),
                  Invoke (sample_client 800 1) 0 None ok_status (sample_request 8),
                  Invoke (sample_client 900 2) 0 None ok_status (sample_request 9),
                  Work [500], Discard 1, Shutdown] init)
     = [(0, unavailable)]
   \<and> distinct (map fst (notified (run [Invoke (sample_client 500 0) 0 None unavailable (sample_request 7),
                  Invoke (sample_client 800 1) 0 None ok_status (sample_request 8),
                  Invoke (sample_client 900 2) 0 None ok_status (sample_request 9),
                  Work [500], Discard 1, Shutdown] init)))
   \<and> code unavailable \<noteq> OK
   \<and> (0, Inl (StatusOf unavailable))
        \<in> set (calls (run [Invoke (sample_client 500 0) 0 None unavailable (sample_request 7),
                  Invoke (sample_client 800 1) 0 None ok_status (sample_request 8),
                  Invoke (sample_client 900 2) 0 None ok_status (sample_request 9),
                  Work [500], Discard 1, Shutdown] init))"
proof -
  let ?A = "[Invoke (sample_client 500 0) 0 None unavailable (sample_request 7),
             Invoke (sample_client 800 1) 0 None ok_status (sample_request 8),
             Invoke (sample_client 900 2) 0 None ok_status (sample_request 9),
             Work [500], Discard 1, Shutdown]"
  note T = on_expire_once_by_queue_once_before_enqueue [of ?A]
  have a: "notified (run ?A init)
     = [(0, expire_reason, False), (1, discard_reason, False), (2, shutdown_reason, True)]"
    by code_simp
  have b: "early_expire (run ?A init) = [(0, unavailable)]" by code_simp
  have c: "distinct (map fst (notified (run ?A init)))" using T [THEN conjunct1] .
  have "(0, unavailable) \<in> set (early_expire (run ?A init))" by (simp add: b)
  then have d: "code unavailable \<noteq> OK
      \<and> (0, Inl (StatusOf unavailable)) \<in> set (calls (run ?A init))"
    using T [THEN conjunct2, THEN conjunct2, THEN conjunct2, THEN conjunct2, THEN conjunct1,
             THEN bspec, of "(0, unavailable)"]
    by simp
  from a b c d show ?thesis by blast
qed

text \<open>
  C10. Status codes. The status of a scoped cancellation and the status of the shutdown
  both have the code \<open>CANCELLED\<close> and differ in their messages; the status of an expiry
  has the code \<open>DEADLINE_EXCEEDED\<close>. \<open>scrub\<close> hands the discarded status to the
  continuation of every waiter it removes whose once-flag was not passed, and calls no other
  continuation; the destructor of the worker does so with the shutdown status for every
  waiter in the container; a pass of the worker loop that finds the front waiter due does
  so with the expiry status for that waiter.
\<close>

theorem cancellation_codes:
  "code discard_reason = CANCELLED \<and> code shutdown_reason = CANCELLED
   \<and> message discard_reason \<noteq> message shutdown_reason
   \<and> code expire_reason = DEADLINE_EXCEEDED
   \<and> (\<exists>ks. calls (ExpireWorker_scrub iid st) = calls st @ ks
          \<and> set ks = {(ex, Inl (StatusOf discard_reason)) | ex.
               ex \<in> expire ` {p \<in> set (pending st). instance_id p = iid}
               \<and> ex < length (once_flags st) \<and> \<not> once_flags st ! ex})
   \<and> (\<exists>ks. calls (ExpireWorker_dtor st) = calls st @ ks
          \<and> set ks = {(ex, Inl (StatusOf shutdown_reason)) | ex.
               ex \<in> expire ` set (pending st)
               \<and> ex < length (once_flags st) \<and> \<not> once_flags st ! ex})
   \<and> calls (doWork_iteration now st) =
       calls st @
       (if pending st \<noteq> [] \<and> when_expire (top (pending st)) \<le> now
           \<and> expire (top (pending st)) < length (once_flags st)
           \<and> \<not> once_flags st ! expire (top (pending st))
        then [(expire (top (pending st)), Inl (StatusOf expire_reason))] else [])"
proof -
  have 1: "code discard_reason = CANCELLED \<and> code shutdown_reason = CANCELLED
   \<and> message discard_reason \<noteq> message shutdown_reason
   \<and> code expire_reason = DEADLINE_EXCEEDED"
    by (simp add: discard_reason_def shutdown_reason_def expire_reason_def)
  have s: "set (map expire (filter (\<lambda>p. iid = instance_id p) (pending st))) =
      expire ` {p \<in> set (pending st). instance_id p = iid}" by auto
  have 2: "\<exists>ks. calls (ExpireWorker_scrub iid st) = calls st @ ks
          \<and> set ks = {(ex, Inl (StatusOf discard_reason)) | ex.
               ex \<in> expire ` {p \<in> set (pending st). instance_id p = iid}
               \<and> ex < length (once_flags st) \<and> \<not> once_flags st ! ex}"
    using new_calls_notify_all_exact[of discard_reason
        "foldl (\<lambda>s h. release_handle h s)
          (st\<lparr>pending := filter (\<lambda>p. \<not> iid = instance_id p) (pending st)\<rparr>)
          (map response_listener (filter (\<lambda>p. iid = instance_id p) (pending st)))"
        "map expire (filter (\<lambda>p. iid = instance_id p) (pending st))"]
    unfolding s by (simp add: ExpireWorker_scrub_unfold)
  have 3: "\<exists>ks. calls (ExpireWorker_dtor st) = calls st @ ks
          \<and> set ks = {(ex, Inl (StatusOf shutdown_reason)) | ex.
               ex \<in> expire ` set (pending st)
               \<and> ex < length (once_flags st) \<and> \<not> once_flags st ! ex}"
    using new_calls_notify_all_exact[of shutdown_reason "st\<lparr>stop := True\<rparr>" "map expire (pending st)"]
    by (simp add: ExpireWorker_dtor_def ScrubablePendingQueue_dtor_unfold)
  have 4: "calls (doWork_iteration now st) =
       calls st @
       (if pending st \<noteq> [] \<and> when_expire (top (pending st)) \<le> now
           \<and> expire (top (pending st)) < length (once_flags st)
           \<and> \<not> once_flags st ! expire (top (pending st))
        then [(expire (top (pending st)), Inl (StatusOf expire_reason))] else [])"
  proof (cases "pending st \<noteq> [] \<and> when_expire (hd (pending st)) \<le> now")
    case True
    then show ?thesis by (simp add: doWork_iteration_due calls_notify top_def)
  next
    case False
    then have "doWork_iteration now st = st" by (intro doWork_iteration_idle) auto
    then show ?thesis using False by (auto simp: top_def)
  qed
  from 1 2 3 4 show ?thesis by blast
qed

theorem cancellation_codes_witness:
  "(1, Inl (StatusOf discard_reason)) \<in> set (calls (ExpireWorker_scrub 1
      (run [Invoke (sample_client 500 0) 0 None ok_status (sample_request 7),
            Invoke (sample_client 800 1) 0 None ok_status (sample_request 8),
            Invoke (sample_client 900 2) 0 None ok_status (sample_request 9)] init)))
   \<and> (2, Inl (StatusOf shutdown_reason)) \<in> set (calls (ExpireWorker_dtor
      (run [Invoke (sample_client 500 0) 0 None ok_status (sample_request 7),
            Invoke (sample_client 800 1) 0 None ok_status (sample_request 8),
            Invoke (sample_client 900 2) 0 None ok_status (sample_request 9)] init)))
   \<and> calls (doWork_iteration 500
      (run [Invoke (sample_client 500 0) 0 None ok_status (sample_request 7),
            Invoke (sample_client 800 1) 0 None ok_status (sample_request 8),
            Invoke (sample_client 900 2) 0 None ok_status (sample_request 9)] init))
      = [(0, Inl (StatusOf expire_reason))]
   \<and> code discard_reason = code shutdown_reason
   \<and> code expire_reason = DEADLINE_EXCEEDED"
proof -
  let ?S = "run [Invoke (sample_client 500 0) 0 None ok_status (sample_request 7),
                 Invoke (sample_client 800 1) 0 None ok_status (sample_request 8),
                 Invoke (sample_client 900 2) 0 None ok_status (sample_request 9)] init"
  let ?w0 = "\<lparr>when_expire = 500, response_listener = 0, expire = 0, instance_id = 0\<rparr>"
  let ?w1 = "\<lparr>when_expire = 800, response_listener = 1, expire = 1, instance_id = 1\<rparr>"
  let ?w2 = "\<lparr>when_expire = 900, response_listener = 2, expire = 2, instance_id = 2\<rparr>"
  have p: "pending ?S = [?w0, ?w1, ?w2]" by code_simp
  have f: "once_flags ?S = [False, False, False]" by code_simp
  have c: "calls ?S = []" by code_simp
  note T1 = cancellation_codes [of 1 ?S 500]
  obtain ks where ks: "calls (ExpireWorker_scrub 1 ?S) = calls ?S @ ks"
      "set ks = {(ex, Inl (StatusOf discard_reason)) | ex.
               ex \<in> expire ` {p \<in> set (pending ?S). instance_id p = 1}
               \<and> ex < length (once_flags ?S) \<and> \<not> once_flags ?S ! ex}"
    using T1 [THEN conjunct2, THEN conjunct2, THEN conjunct2, THEN conjunct2, THEN conjunct1]
    by (elim exE conjE)
  have "(1, Inl (StatusOf discard_reason)) \<in> set ks"
    unfolding ks(2) p f by (auto intro!: image_eqI[where x = ?w1])
  then have 1: "(1, Inl (StatusOf discard_reason)) \<in> set (calls (ExpireWorker_scrub 1 ?S))"
    by (simp add: ks(1))
  obtain ks' where ks': "calls (ExpireWorker_dtor ?S) = calls ?S @ ks'"
      "set ks' = {(ex, Inl (StatusOf shutdown_reason)) | ex.
               ex \<in> expire ` set (pending ?S)
               \<and> ex < length (once_flags ?S) \<and> \<not> once_flags ?S ! ex}"
    using T1 [THEN conjunct2, THEN conjunct2, THEN conjunct2, THEN conjunct2, THEN conjunct2,
              THEN conjunct1]
    by (elim exE conjE)
  have "(2, Inl (StatusOf shutdown_reason)) \<in> set ks'"
    unfolding ks'(2) p f by (auto intro!: image_eqI[where x = ?w2])
  then have 2: "(2, Inl (StatusOf shutdown_reason)) \<in> set (calls (ExpireWorker_dtor ?S))"
    by (simp add: ks'(1))
  have "calls (doWork_iteration 500 ?S) =
       calls ?S @
       (if pending ?S \<noteq> [] \<and> when_expire (top (pending ?S)) \<le> 500
           \<and> expire (top (pending ?S)) < length (once_flags ?S)
           \<and> \<not> once_flags ?S ! expire (top (pending ?S))
        then [(expire (top (pending ?S)), Inl (StatusOf expire_reason))] else [])"
    using T1 [THEN conjunct2, THEN conjunct2, THEN conjunct2, THEN conjunct2, THEN conjunct2,
              THEN conjunct2] .
  then have 3: "calls (doWork_iteration 500 ?S) = [(0, Inl (StatusOf expire_reason))]"
    unfolding p f c by (simp add: top_def)
  have 4: "code discard_reason = code shutdown_reason \<and> code expire_reason = DEADLINE_EXCEEDED"
    using T1 [THEN conjunct1] T1 [THEN conjunct2, THEN conjunct1]
      T1 [THEN conjunct2, THEN conjunct2, THEN conjunct2, THEN conjunct1] by simp
  from 1 2 3 4 show ?thesis by (intro conjI) simp_all
qed

end
